theory Spec2Isabelle
  imports Main
begin

section \<open>Python strings\<close>

text \<open>
  A Python \<open>str\<close> is a sequence of Unicode code points. Code points are natural numbers
  here, so that the model covers every string the program can receive, not only the
  8-bit ones. \<open>lit\<close> turns an ASCII literal of the source into such a string.
\<close>

type_synonym codepoint = nat
type_synonym str = "codepoint list"

definition lit :: "string \<Rightarrow> str" where
  "lit s = map of_char s"

definition startswith :: "str \<Rightarrow> str \<Rightarrow> bool" where
  "startswith s p = (take (length p) s = p)"

definition is_ascii :: "str \<Rightarrow> bool" where
  "is_ascii s = list_all (\<lambda>c. c < 128) s"

text \<open>
  Two character classes of the Python runtime are used by the program: the class \<open>\d\<close>
  of the \<open>re\<close> module (Unicode category Nd) and the class behind \<open>str.isdigit\<close>
  (Numeric_Type Digit or Decimal). Both are tables of the Unicode database, which is not
  part of the repository. On ASCII both are exactly \<open>0\<close> to \<open>9\<close>; beyond ASCII they are
  parameters of the model.
\<close>

record unicode_tables =
  decimal_nonascii :: "codepoint \<Rightarrow> bool"
  digit_nonascii :: "codepoint \<Rightarrow> bool"

definition ascii_digit :: "codepoint \<Rightarrow> bool" where
  "ascii_digit c = (48 \<le> c \<and> c \<le> 57)"

definition re_digit :: "unicode_tables \<Rightarrow> codepoint \<Rightarrow> bool" where
  "re_digit U c = (if c < 128 then ascii_digit c else decimal_nonascii U c)"

definition isdigit_char :: "unicode_tables \<Rightarrow> codepoint \<Rightarrow> bool" where
  "isdigit_char U c = (if c < 128 then ascii_digit c else digit_nonascii U c)"

text \<open>\<open>s.isdigit()\<close>: all characters are digits and there is at least one character.\<close>

definition isdigit :: "unicode_tables \<Rightarrow> str \<Rightarrow> bool" where
  "isdigit U s = (s \<noteq> [] \<and> list_all (isdigit_char U) s)"

text \<open>
  The one fact about the tables beyond ASCII that the program relies on: every decimal
  digit (category Nd) has Numeric_Type Decimal, so \<open>isdigit\<close> accepts it.
\<close>

definition tables_ok :: "unicode_tables \<Rightarrow> bool" where
  "tables_ok U = (\<forall>c. decimal_nonascii U c \<longrightarrow> digit_nonascii U c)"

text \<open>The tables with no digit beyond ASCII, for evaluating ASCII inputs.\<close>

definition ascii_tables :: unicode_tables where
  "ascii_tables = \<lparr>decimal_nonascii = (\<lambda>c. False), digit_nonascii = (\<lambda>c. False)\<rparr>"

text \<open>
  Python's tables on Latin-1 (up to U+00FF): no decimal digit beyond ASCII, and the
  superscripts two, three and one (U+00B2, U+00B3, U+00B9) are digits for \<open>isdigit\<close>.
\<close>

definition latin1_tables :: unicode_tables where
  "latin1_tables = \<lparr>decimal_nonascii = (\<lambda>c. False),
                      digit_nonascii = (\<lambda>c. c = 178 \<or> c = 179 \<or> c = 185)\<rparr>"

section \<open>Errors\<close>

text \<open>
  Every exception the program can raise is a value. \<open>ValueError\<close> carries its message;
  \<open>KeyError\<close> the missing key. \<open>StreamlitSecretNotFoundError\<close> is what \<open>st.secrets\<close>
  raises when there is no secrets file.
\<close>

datatype error =
    ValueError str
  | KeyError string
  | TypeError str
  | AttributeError str
  | StreamlitSecretNotFoundError
  | TweepyException str
  | OtherException str

definition error_text :: "error \<Rightarrow> str" where
  "error_text e =
     (case e of
        ValueError m \<Rightarrow> m
      | KeyError k \<Rightarrow> lit ([CHR 0x27] @ k @ [CHR 0x27])
      | TypeError m \<Rightarrow> m
      | AttributeError m \<Rightarrow> m
      | StreamlitSecretNotFoundError \<Rightarrow> lit ''No secrets found.''
      | TweepyException m \<Rightarrow> m
      | OtherException m \<Rightarrow> m)"

section \<open>The regular expression of the extractor\<close>

text \<open>
  The constructs of Python's \<open>re\<close> that the pattern uses: literal characters, the negated
  class \<open>[^c]\<close>, \<open>\d\<close>, sequence, alternation \<open>|\<close>, greedy \<open>?\<close> and \<open>+\<close>, and the
  capture group.
\<close>

datatype re =
    Eps
  | Chr codepoint
  | NotChr codepoint
  | Digit
  | Seq re re
  | Alt re re
  | Opt re
  | Plus re
  | Group re

text \<open>
  \<open>matches\<close> is the backtracking matcher: from a state (the capture so far, the rest of the
  input) it lists the states after every way of matching the expression at the start of
  the input, in the order in which Python's engine tries them (left alternative first,
  greedy: one more repetition before stopping).
\<close>

fun matches :: "unicode_tables \<Rightarrow> re \<Rightarrow> str option \<times> str \<Rightarrow> (str option \<times> str) list" where
  "matches U Eps st = [st]"
| "matches U (Chr c) (g, s) =
     (case s of [] \<Rightarrow> [] | x # xs \<Rightarrow> if x = c then [(g, xs)] else [])"
| "matches U (NotChr c) (g, s) =
     (case s of [] \<Rightarrow> [] | x # xs \<Rightarrow> if x \<noteq> c then [(g, xs)] else [])"
| "matches U Digit (g, s) =
     (case s of [] \<Rightarrow> [] | x # xs \<Rightarrow> if re_digit U x then [(g, xs)] else [])"
| "matches U (Seq a b) st = concat (map (matches U b) (matches U a st))"
| "matches U (Alt a b) st = matches U a st @ matches U b st"
| "matches U (Opt a) st = matches U a st @ [st]"
| "matches U (Plus a) (g, s) =
     concat (map (\<lambda>(g', s').
                    (if length s' < length s then matches U (Plus a) (g', s') else [])
                    @ [(g', s')])
                 (matches U a (g, s)))"
| "matches U (Group a) (g, s) =
     map (\<lambda>(g', s'). (Some (take (length s - length s') s), s')) (matches U a (g, s))"

fun lits :: "string \<Rightarrow> re" where
  "lits [] = Eps"
| "lits (c # cs) = Seq (Chr (of_char c)) (lits cs)"

text \<open>\<open>re.match(r, s)\<close>: the first match at the start of \<open>s\<close>, as its group 1, or \<open>None\<close>.\<close>

definition re_match :: "unicode_tables \<Rightarrow> re \<Rightarrow> str \<Rightarrow> str option option" where
  "re_match U r s = (case matches U r (None, s) of [] \<Rightarrow> None | (g, rest) # ms \<Rightarrow> Some g)"

definition slash :: codepoint where
  "slash = of_char CHR ''/''"

text \<open>\<^verbatim>\<open>https?://(?:www\.)?(?:x\.com|twitter\.com)/[^/]+/status/(\d+)\<close>\<close>

definition pattern :: re where
  "pattern =
     Seq (lits ''http'') (Seq (Opt (Chr (of_char CHR ''s''))) (Seq (lits ''://'')
    (Seq (Opt (lits ''www.''))
    (Seq (Alt (lits ''x.com'') (lits ''twitter.com''))
    (Seq (Chr slash) (Seq (Plus (NotChr slash))
    (Seq (lits ''/status/'') (Group (Plus Digit)))))))))"

section \<open>Identifier extractor and posting gateway\<close>

definition invalid_url :: "str \<Rightarrow> error" where
  "invalid_url url = ValueError (lit ''Invalid URL or does not contain a valid post ID: '' @ url)"

definition extract_tweet_id_from_url :: "unicode_tables \<Rightarrow> str \<Rightarrow> error + str" where
  "extract_tweet_id_from_url U url =
     (case re_match U pattern url of
        None \<Rightarrow> Inl (invalid_url url)
      | Some None \<Rightarrow> Inl (AttributeError (lit ([CHR 0x27] @ ''NoneType'' @ [CHR 0x27] @
                              '' object has no attribute '' @ [CHR 0x27] @ ''isdigit'' @ [CHR 0x27])))
      | Some (Some tweet_id) \<Rightarrow>
          if isdigit U tweet_id then Inr tweet_id else Inl (invalid_url url))"

text \<open>
  The posting client is an external collaborator: \<open>create_tweet\<close> takes the text and the
  optional quoted identifier and returns the identifier of the created post or raises.
  The gateway functions return the calls they made to it together with their result.
\<close>

type_synonym client = "str \<Rightarrow> str option \<Rightarrow> error + str"

text \<open>
  Configuration values are strings or integers; the credentials are the four secret
  strings. The actions are what a run shows to the user and does to the posting client.
\<close>

datatype cfgval = CStr str | CInt int

type_synonym config = "string \<rightharpoonup> cfgval"

record credentials =
  consumer_key :: str
  consumer_secret :: str
  access_token :: str
  access_token_secret :: str

datatype action =
    PageConfig cfgval
  | Css cfgval
  | Title str
  | Markdown str
  | LoginForm
  | TextArea cfgval cfgval
  | QuoteInput
  | ErrorMsg str
  | SuccessMsg str
  | Button str
  | NewClient credentials
  | CreateTweet str "str option"

definition post_message :: "client \<Rightarrow> str \<Rightarrow> action list \<times> (error + str)" where
  "post_message client message = ([CreateTweet message None], client message None)"

definition invalid_quote_id :: error where
  "invalid_quote_id =
     ValueError (lit ''quote_tweet_id must be a string representing a valid numeric ID.'')"

definition post_quote ::
  "unicode_tables \<Rightarrow> client \<Rightarrow> str \<Rightarrow> str \<Rightarrow> action list \<times> (error + str)" where
  "post_quote U client message quote_tweet_id_or_url =
     (case (if startswith quote_tweet_id_or_url (lit ''http'')
            then extract_tweet_id_from_url U quote_tweet_id_or_url
            else Inr quote_tweet_id_or_url) of
        Inl e \<Rightarrow> ([], Inl e)
      | Inr quote_tweet_id \<Rightarrow>
          if \<not> isdigit U quote_tweet_id then ([], Inl invalid_quote_id)
          else ([CreateTweet message (Some quote_tweet_id)],
                client message (Some quote_tweet_id)))"

text \<open>
  The shape of a post URL in the words of the specification: scheme \<open>http\<close> or \<open>https\<close>,
  optional \<open>www.\<close>, host \<open>x.com\<close> or \<open>twitter.com\<close>, then a segment without slash,
  \<open>/status/\<close> and the digits.
\<close>

definition post_url_shape :: "unicode_tables \<Rightarrow> str \<Rightarrow> str \<Rightarrow> bool" where
  "post_url_shape U url digits =
     (\<exists>scheme www host seg.
        url = scheme @ lit ''://'' @ www @ host @ lit ''/'' @ seg @ lit ''/status/'' @ digits \<and>
        (scheme = lit ''http'' \<or> scheme = lit ''https'') \<and>
        (www = [] \<or> www = lit ''www.'') \<and>
        (host = lit ''x.com'' \<or> host = lit ''twitter.com'') \<and>
        seg \<noteq> [] \<and> slash \<notin> set seg \<and>
        digits \<noteq> [] \<and> list_all (re_digit U) digits)"


section \<open>Secret store, configuration and session state\<close>

text \<open>
  The secrets file, when there is one, holds the secret strings under their keys and,
  optionally, a \<open>config\<close> section. \<open>st.secrets[key]\<close> raises
  \<open>StreamlitSecretNotFoundError\<close> when there is no secrets file and \<open>KeyError\<close> when the
  file has no such key. \<open>config.toml\<close> is read by \<open>open\<close> and \<open>tomllib.load\<close>, which
  either fail or give the \<open>config\<close> table. The posting client built from the credentials
  is the external collaborator of the gateway.
\<close>

record secret_store =
  entries :: "string \<rightharpoonup> str"
  config_section :: "config option"

record env =
  unicode :: unicode_tables
  config_toml :: "error + config"
  secrets :: "secret_store option"
  tweepy_client :: "credentials \<Rightarrow> client"

definition secret :: "secret_store option \<Rightarrow> string \<Rightarrow> error + str" where
  "secret sec key =
     (case sec of
        None \<Rightarrow> Inl StreamlitSecretNotFoundError
      | Some store \<Rightarrow>
          (case entries store key of None \<Rightarrow> Inl (KeyError key) | Some v \<Rightarrow> Inr v))"

definition load_credentials :: "secret_store option \<Rightarrow> error + credentials" where
  "load_credentials sec =
     (case secret sec ''CONSUMER_KEY'' of
        Inl err \<Rightarrow> Inl err
      | Inr ck \<Rightarrow>
     (case secret sec ''CONSUMER_SECRET'' of
        Inl err \<Rightarrow> Inl err
      | Inr cs \<Rightarrow>
     (case secret sec ''ACCESS_TOKEN'' of
        Inl err \<Rightarrow> Inl err
      | Inr at \<Rightarrow>
     (case secret sec ''ACCESS_TOKEN_SECRET'' of
        Inl err \<Rightarrow> Inl err
      | Inr ats \<Rightarrow>
          Inr \<lparr>consumer_key = ck, consumer_secret = cs,
               access_token = at, access_token_secret = ats\<rparr>))))"

definition credential_keys :: "string list" where
  "credential_keys = [''CONSUMER_KEY'', ''CONSUMER_SECRET'', ''ACCESS_TOKEN'', ''ACCESS_TOKEN_SECRET'']"

text \<open>
  One of the four credentials is absent from the secret store: there is no secrets file,
  or the file lacks one of the keys.
\<close>

definition credential_absent :: "secret_store option \<Rightarrow> bool" where
  "credential_absent sec =
     (case sec of
        None \<Rightarrow> True
      | Some store \<Rightarrow> (\<exists>k\<in>set credential_keys. entries store k = None))"

text \<open>
  \<open>load_config\<close> catches the \<open>KeyError\<close> of a secrets file without \<open>config\<close> section
  only: without a secrets file the error of \<open>st.secrets\<close> escapes.
\<close>

definition load_config :: "env \<Rightarrow> error + config" where
  "load_config e =
     (case config_toml e of
        Inl err \<Rightarrow> Inl err
      | Inr config \<Rightarrow>
          (case secrets e of
             None \<Rightarrow> Inl StreamlitSecretNotFoundError
           | Some store \<Rightarrow>
               (case config_section store of
                  None \<Rightarrow> Inr config
                | Some override \<Rightarrow> Inr (config ++ override))))"

text \<open>
  \<open>st.session_state\<close> is a dictionary; the program stores a boolean under
  \<open>password_correct\<close> and the password widget stores its text under \<open>password_input\<close>.
\<close>

datatype pyval = PBool bool | PStr str

definition type_name :: "pyval \<Rightarrow> string" where
  "type_name v = (case v of PBool b \<Rightarrow> ''bool'' | PStr s \<Rightarrow> ''str'')"

type_synonym session_state = "string \<rightharpoonup> pyval"

definition truthy :: "pyval \<Rightarrow> bool" where
  "truthy v = (case v of PBool b \<Rightarrow> b | PStr s \<Rightarrow> s \<noteq> [])"

text \<open>The condition \<open>st.session_state.get("password_correct", False)\<close>.\<close>

definition password_correct_flag :: "session_state \<Rightarrow> bool" where
  "password_correct_flag ss =
     (case ss ''password_correct'' of None \<Rightarrow> False | Some v \<Rightarrow> truthy v)"

text \<open>The session flag of the specification: \<open>authenticated == true\<close>.\<close>

definition authenticated :: "session_state \<Rightarrow> bool" where
  "authenticated ss = (ss ''password_correct'' = Some (PBool True))"

section \<open>Access gate\<close>

text \<open>
  \<open>hmac.compare_digest\<close> on two \<open>str\<close> arguments compares them when both are ASCII and
  raises \<open>TypeError\<close> otherwise; on any other combination of these types it raises
  \<open>TypeError\<close> too.
\<close>

definition compare_digest :: "pyval \<Rightarrow> pyval \<Rightarrow> error + bool" where
  "compare_digest a b =
     (case (a, b) of
        (PStr x, PStr y) \<Rightarrow>
          if is_ascii x \<and> is_ascii y then Inr (x = y)
          else Inl (TypeError (lit ''comparing strings with non-ASCII characters is not supported''))
      | _ \<Rightarrow> Inl (TypeError (lit (''unsupported operand types(s) or combination of types: '' @
                                 [CHR 0x27] @ type_name a @ [CHR 0x27] @ '' and '' @
                                 [CHR 0x27] @ type_name b @ [CHR 0x27]))))"

text \<open>
  The form callback. Both lookups and the comparison come before the first assignment, so
  when one of them raises the session state is as it was.
\<close>

definition password_entered :: "secret_store option \<Rightarrow> session_state \<Rightarrow> error + session_state" where
  "password_entered sec ss =
     (case ss ''password_input'' of
        None \<Rightarrow> Inl (KeyError ''password_input'')
      | Some pw \<Rightarrow>
     (case secret sec ''APP_PASSWORD'' of
        Inl err \<Rightarrow> Inl err
      | Inr app_password \<Rightarrow>
     (case compare_digest pw (PStr app_password) of
        Inl err \<Rightarrow> Inl err
      | Inr eq \<Rightarrow>
          if eq then Inr ((ss(''password_correct'' \<mapsto> PBool True))(''password_input'' := None))
          else Inr ((ss(''password_correct'' \<mapsto> PBool False))(''password_input'' := None)))))"

text \<open>
  What the user did in one run of the script: the text of each widget and the button that
  was pressed.
\<close>

record ui_input =
  password_field :: str
  submit :: bool
  text_field :: str
  quote_url_field :: str
  post_button :: bool
  logout_button :: bool

text \<open>
  How a run of a function ends: it returns, \<open>st.stop()\<close> halts the script,
  \<open>st.rerun()\<close> restarts it, or an exception escapes.
\<close>

datatype 'a run = Returned 'a | Stopped | Rerun | Raised error

definition login_form :: "action list" where
  "login_form = [Title ([128274] @ lit '' Reserved access''), Markdown (lit ''Sign-in:''), LoginForm]"

definition incorrect_password :: action where
  "incorrect_password = ErrorMsg ([128533] @ lit '' Incorrect password'')"

definition check_password ::
  "secret_store option \<Rightarrow> ui_input \<Rightarrow> session_state \<Rightarrow> session_state \<times> action list \<times> bool run" where
  "check_password sec ui ss =
     (if password_correct_flag ss then (ss, [], Returned True)
      else
        let ss1 = ss(''password_input'' \<mapsto> PStr (password_field ui)) in
        (case (if submit ui then password_entered sec ss1 else Inr ss1) of
           Inl err \<Rightarrow> (ss1, login_form, Raised err)
         | Inr ss2 \<Rightarrow>
             if \<not> password_correct_flag ss2
             then (ss2, login_form @ [incorrect_password], Stopped)
             else (ss2, login_form, Returned True)))"

section \<open>Presentation layer\<close>

text \<open>The body of \<open>if st.button("Post on X")\<close>.\<close>

definition submit_post :: "unicode_tables \<Rightarrow> client \<Rightarrow> ui_input \<Rightarrow> action list" where
  "submit_post U client ui =
     (if text_field ui = [] then [ErrorMsg (lit ''The text cannot be empty!'')]
      else
        (case (if quote_url_field ui \<noteq> []
               then post_quote U client (text_field ui) (quote_url_field ui)
               else post_message client (text_field ui)) of
           (calls, Inr new_id) \<Rightarrow>
             calls @ [SuccessMsg (lit ''Posted successfully! ID: '' @ new_id)]
         | (calls, Inl (ValueError m)) \<Rightarrow>
             calls @ [ErrorMsg (lit ''Validation error: '' @ m)]
         | (calls, Inl err) \<Rightarrow>
             calls @ [ErrorMsg (lit ''Error during posting: '' @ error_text err)]))"

text \<open>
  The body of \<open>if check_password()\<close> in \<open>main\<close>. The calls that only draw a widget are
  taken to succeed.
\<close>

definition protected_content ::
  "env \<Rightarrow> config \<Rightarrow> ui_input \<Rightarrow> session_state \<Rightarrow> session_state \<times> action list \<times> unit run" where
  "protected_content e config ui ss =
     (case load_credentials (secrets e) of
        Inl err \<Rightarrow> (ss, [], Raised err)
      | Inr creds \<Rightarrow>
          let a1 = [NewClient creds, Title (lit ''Post on X''),
                    Markdown (lit ''Enter the text and optionally a URL to quote.'')] in
          (case config ''textarea_max_chars'' of
             None \<Rightarrow> (ss, a1, Raised (KeyError ''textarea_max_chars''))
           | Some max_chars \<Rightarrow>
          (case config ''textarea_height'' of
             None \<Rightarrow> (ss, a1, Raised (KeyError ''textarea_height''))
           | Some height \<Rightarrow>
               let a2 = a1 @ [TextArea max_chars height, QuoteInput, Button (lit ''Post on X'')]
                           @ (if post_button ui
                              then submit_post (unicode e) (tweepy_client e creds) ui else [])
                           @ [Button (lit ''Logout'')] in
               if logout_button ui then (ss(''password_correct'' := None), a2, Rerun)
               else (ss, a2, Returned ()))))"

definition main :: "env \<Rightarrow> ui_input \<Rightarrow> session_state \<Rightarrow> session_state \<times> action list \<times> unit run" where
  "main e ui ss =
     (case load_config e of
        Inl err \<Rightarrow> (ss, [], Raised err)
      | Inr config \<Rightarrow>
     (case config ''page_title'' of
        None \<Rightarrow> (ss, [], Raised (KeyError ''page_title''))
      | Some page_title \<Rightarrow>
     (case config ''textarea_font_size'' of
        None \<Rightarrow> (ss, [PageConfig page_title], Raised (KeyError ''textarea_font_size''))
      | Some font_size \<Rightarrow>
          let a0 = [PageConfig page_title, Css font_size] in
          (case check_password (secrets e) ui ss of
             (ss1, a1, Returned ok) \<Rightarrow>
               if ok
               then (case protected_content e config ui ss1 of
                       (ss2, a2, r) \<Rightarrow> (ss2, a0 @ a1 @ a2, r))
               else (ss1, a0 @ a1, Returned ())
           | (ss1, a1, Stopped) \<Rightarrow> (ss1, a0 @ a1, Stopped)
           | (ss1, a1, Rerun) \<Rightarrow> (ss1, a0 @ a1, Rerun)
           | (ss1, a1, Raised err) \<Rightarrow> (ss1, a0 @ a1, Raised err)))))"

text \<open>The actions that build or call the posting client.\<close>

definition is_client_action :: "action \<Rightarrow> bool" where
  "is_client_action a =
     (case a of NewClient creds \<Rightarrow> True | CreateTweet m q \<Rightarrow> True | _ \<Rightarrow> False)"

text \<open>
  The session states the application can be in: a session starts empty, and every run of
  the script, whatever the user does in it, leaves the next state.
\<close>

inductive reachable :: "env \<Rightarrow> session_state \<Rightarrow> bool" for e :: env where
  start: "reachable e Map.empty"
| step: "reachable e ss \<Longrightarrow> main e ui ss = (ss', acts, r) \<Longrightarrow> reachable e ss'"


section \<open>Example inputs\<close>

text \<open>
  A configuration as in the docstring of \<open>load_config\<close>, a secrets file with every field,
  one with the password only, an application without secrets file, some user inputs and
  the session state after a login. \<open>umlaut_password\<close> is \<open>p\<close>, U+00E4, \<open>ssword\<close>.
\<close>

definition demo_config :: config where
  "demo_config = [''page_title'' \<mapsto> CStr (lit ''xpost''), ''textarea_max_chars'' \<mapsto> CInt 280,
                  ''textarea_height'' \<mapsto> CInt 100, ''textarea_font_size'' \<mapsto> CInt 16]"

definition demo_store :: secret_store where
  "demo_store = \<lparr>entries = [''APP_PASSWORD'' \<mapsto> lit ''secret'', ''CONSUMER_KEY'' \<mapsto> lit ''ck'',
                            ''CONSUMER_SECRET'' \<mapsto> lit ''cs'', ''ACCESS_TOKEN'' \<mapsto> lit ''at'',
                            ''ACCESS_TOKEN_SECRET'' \<mapsto> lit ''ats''],
                 config_section = None\<rparr>"

definition demo_env :: env where
  "demo_env = \<lparr>unicode = ascii_tables, config_toml = Inr demo_config,
     secrets = Some demo_store,
     tweepy_client = (\<lambda>creds message quote. Inr (lit ''1''))\<rparr>"

definition password_store :: "str \<Rightarrow> secret_store" where
  "password_store pw = \<lparr>entries = [''APP_PASSWORD'' \<mapsto> pw], config_section = None\<rparr>"

definition no_credentials_env :: env where
  "no_credentials_env = demo_env\<lparr>secrets := Some (password_store (lit ''secret''))\<rparr>"

definition no_secrets_env :: env where
  "no_secrets_env = demo_env\<lparr>secrets := None\<rparr>"

definition idle_ui :: ui_input where
  "idle_ui = \<lparr>password_field = [], submit = False, text_field = [], quote_url_field = [],
              post_button = False, logout_button = False\<rparr>"

definition umlaut_password :: str where
  "umlaut_password = lit ''p'' @ [228] @ lit ''ssword''"

definition login_ui :: "str \<Rightarrow> ui_input" where
  "login_ui pw = idle_ui\<lparr>password_field := pw, submit := True\<rparr>"

definition quote_post_ui :: ui_input where
  "quote_post_ui = \<lparr>password_field = [], submit = False, text_field = lit ''hello world'',
     quote_url_field = lit ''https://x.com/alice/status/1234567890123456789'',
     post_button = True, logout_button = False\<rparr>"

definition unlocked_session :: session_state where
  "unlocked_session = [''password_correct'' \<mapsto> PBool True]"

definition demo_credentials :: credentials where
  "demo_credentials = \<lparr>consumer_key = lit ''ck'', consumer_secret = lit ''cs'',
     access_token = lit ''at'', access_token_secret = lit ''ats''\<rparr>"

section \<open>Auxiliary notions for the proofs\<close>

text \<open>The part of the pattern from the first slash of the path on.\<close>

abbreviation path_re :: re where
  "path_re \<equiv> Seq (Chr slash) (Seq (Plus (NotChr slash)) (Seq (lits ''/status/'') (Group (Plus Digit))))"

text \<open>
  An expression that consumes exactly one character, namely one that satisfies \<open>P\<close>.
\<close>

definition char_class :: "unicode_tables \<Rightarrow> re \<Rightarrow> (codepoint \<Rightarrow> bool) \<Rightarrow> bool" where
  "char_class U a P = (\<forall>g s. matches U a (g, s) = (case s of [] \<Rightarrow> [] | x # xs \<Rightarrow> if P x then [(g, xs)] else []))"


section \<open>Properties of the matcher\<close>


lemma lit_append: "lit (a @ b) = lit a @ lit b"
  by (simp add: lit_def)

lemma length_lit: "length (lit w) = length w"
  by (simp add: lit_def)

lemma matches_lits:
  "matches U (lits w) (g, s) = (if startswith s (lit w) then [(g, drop (length w) s)] else [])"
proof (induction w arbitrary: s)
  case Nil
  show ?case by (simp add: startswith_def lit_def)
next
  case (Cons c cs)
  show ?case
  proof (cases s)
    case Nil
    then show ?thesis by (simp add: startswith_def lit_def)
  next
    case (Cons x xs)
    then show ?thesis using Cons.IH [of xs]
      by (auto simp: startswith_def lit_def)
  qed
qed

lemma matches_lits_append: "matches U (lits w) (g, lit w @ s) = [(g, s)]"
  by (simp add: matches_lits startswith_def length_lit)

lemma char_class_NotChr: "char_class U (NotChr c) (\<lambda>x. x \<noteq> c)"
  by (simp add: char_class_def)

lemma char_class_Digit: "char_class U Digit (re_digit U)"
  by (simp add: char_class_def)

lemma plus_class_Nil: "char_class U a P \<Longrightarrow> matches U (Plus a) (g, []) = []"
  by (simp add: char_class_def)

lemma plus_class_Cons:
  "char_class U a P \<Longrightarrow>
   matches U (Plus a) (g, x # xs) = (if P x then matches U (Plus a) (g, xs) @ [(g, xs)] else [])"
  by (simp add: char_class_def)

declare matches.simps(8) [simp del]

lemma plus_class_first:
  assumes "char_class U a P"
  shows "s \<noteq> [] \<Longrightarrow> P (hd s) \<Longrightarrow> \<exists>ms. matches U (Plus a) (g, s) = (g, dropWhile P s) # ms"
proof (induction s)
  case Nil
  then show ?case by simp
next
  case (Cons x xs)
  show ?case
  proof (cases "xs \<noteq> [] \<and> P (hd xs)")
    case True
    with Cons.IH obtain ms where "matches U (Plus a) (g, xs) = (g, dropWhile P xs) # ms" by blast
    with Cons.prems show ?thesis by (simp add: plus_class_Cons [OF assms])
  next
    case False
    then have "matches U (Plus a) (g, xs) = []"
      by (cases xs) (auto simp: plus_class_Nil [OF assms] plus_class_Cons [OF assms])
    moreover from False have "dropWhile P xs = xs" by (cases xs) auto
    ultimately show ?thesis using Cons.prems by (simp add: plus_class_Cons [OF assms])
  qed
qed

lemma plus_class_sound:
  assumes "char_class U a P"
  shows "(g', s') \<in> set (matches U (Plus a) (g, s)) \<Longrightarrow>
         g' = g \<and> (\<exists>w. w \<noteq> [] \<and> list_all P w \<and> s = w @ s')"
proof (induction s)
  case Nil
  then show ?case by (simp add: plus_class_Nil [OF assms])
next
  case (Cons x xs)
  from Cons.prems have px: "P x" and mem: "(g', s') \<in> set (matches U (Plus a) (g, xs)) \<or> (g', s') = (g, xs)"
    by (auto simp: plus_class_Cons [OF assms] split: if_splits)
  from mem show ?case
  proof
    assume "(g', s') \<in> set (matches U (Plus a) (g, xs))"
    with Cons.IH obtain w where "g' = g" "w \<noteq> []" "list_all P w" "xs = w @ s'" by blast
    with px have "x # w \<noteq> [] \<and> list_all P (x # w) \<and> x # xs = (x # w) @ s'" by simp
    with \<open>g' = g\<close> show ?thesis by blast
  next
    assume "(g', s') = (g, xs)"
    with px have "g' = g" "[x] \<noteq> [] \<and> list_all P [x] \<and> x # xs = [x] @ s'" by simp_all
    then show ?thesis by blast
  qed
qed

lemma matches_head:
  assumes "scheme = lit ''http'' \<or> scheme = lit ''https''"
      and "www = [] \<or> www = lit ''www.''"
      and "host = lit ''x.com'' \<or> host = lit ''twitter.com''"
  shows "matches U pattern (g, scheme @ lit ''://'' @ www @ host @ r) = matches U path_re (g, r)"
  using assms
  by (auto simp: pattern_def matches_lits startswith_def lit_def)


lemma matches_path_first:
  assumes "seg \<noteq> []" "slash \<notin> set seg" "digits \<noteq> []" "list_all (re_digit U) digits"
  shows "\<exists>ms. matches U path_re (g, lit ''/'' @ seg @ lit ''/status/'' @ digits @ t) =
           (Some (digits @ takeWhile (re_digit U) t), dropWhile (re_digit U) t) # ms"
proof -
  let ?r1 = "lit ''/status/'' @ digits @ t"
  have sl: "lit ''/'' = [slash]" "lit ''/status/'' = slash # lit ''status/''"
    by (simp_all add: lit_def slash_def)
  from assms(1,2) have "seg @ ?r1 \<noteq> []" "hd (seg @ ?r1) \<noteq> slash"
    by (cases seg; simp)+
  from plus_class_first [OF char_class_NotChr this]
  obtain ms1 where m1: "matches U (Plus (NotChr slash)) (g, seg @ ?r1) =
      (g, dropWhile (\<lambda>x. x \<noteq> slash) (seg @ ?r1)) # ms1" by blast
  from assms(2) have dw: "dropWhile (\<lambda>x. x \<noteq> slash) (seg @ ?r1) = ?r1"
    by (simp add: dropWhile_append sl)
  from assms(3,4) have "digits @ t \<noteq> []" "re_digit U (hd (digits @ t))"
    by (cases digits; simp)+
  from plus_class_first [OF char_class_Digit this]
  obtain ms2 where m2: "matches U (Plus Digit) (g, digits @ t) =
      (g, dropWhile (re_digit U) (digits @ t)) # ms2" by blast
  from assms(4) have dd: "dropWhile (re_digit U) (digits @ t) = dropWhile (re_digit U) t"
    by (simp add: dropWhile_append list_all_iff)
  have len: "length (digits @ t) - length (dropWhile (re_digit U) t) =
             length (digits @ takeWhile (re_digit U) t)"
  proof -
    have "length (takeWhile (re_digit U) t) + length (dropWhile (re_digit U) t) = length t"
      by (metis length_append takeWhile_dropWhile_id)
    then show ?thesis by simp
  qed
  have tk: "take (length (digits @ t) - length (dropWhile (re_digit U) t)) (digits @ t) =
            digits @ takeWhile (re_digit U) t"
    unfolding len using takeWhile_dropWhile_id [of "re_digit U" t]
    by (metis append.assoc append_eq_conv_conj)
  have "matches U (Group (Plus Digit)) (g, digits @ t) =
          map (\<lambda>(g', s'). (Some (take (length (digits @ t) - length s') (digits @ t)), s'))
              ((g, dropWhile (re_digit U) t) # ms2)"
    by (simp only: matches.simps(9) m2 dd)
  also have "\<dots> = (Some (digits @ takeWhile (re_digit U) t), dropWhile (re_digit U) t) #
          map (\<lambda>(g', s'). (Some (take (length (digits @ t) - length s') (digits @ t)), s')) ms2"
    by (simp only: list.map prod.case tk)
  finally obtain ms3 where m3: "matches U (Group (Plus Digit)) (g, digits @ t) =
      (Some (digits @ takeWhile (re_digit U) t), dropWhile (re_digit U) t) # ms3" by blast
  have "matches U (Seq (lits ''/status/'') (Group (Plus Digit))) (g, ?r1) =
        matches U (Group (Plus Digit)) (g, digits @ t)"
    by (simp add: matches_lits_append del: lits.simps)
  with m3 m1 show ?thesis
    by (simp add: sl(1) dw del: lits.simps)
qed


lemma in_matches_lits:
  "(g', s') \<in> set (matches U (lits w) (g, s)) \<longleftrightarrow> g' = g \<and> s = lit w @ s'"
proof -
  have "take (length w) s = lit w \<and> s' = drop (length w) s \<longleftrightarrow> s = lit w @ s'"
    by (metis append_eq_conv_conj length_lit)
  then show ?thesis by (auto simp: matches_lits startswith_def length_lit)
qed

lemma in_matches_Seq:
  "m \<in> set (matches U (Seq a b) st) \<longleftrightarrow> (\<exists>x \<in> set (matches U a st). m \<in> set (matches U b x))"
  by auto

lemma in_matches_Chr:
  "(g', s') \<in> set (matches U (Chr c) (g, s)) \<longleftrightarrow> g' = g \<and> s = c # s'"
  by (cases s) auto

lemma matches_path_sound:
  assumes "(g', s') \<in> set (matches U path_re (g, r))"
  shows "\<exists>seg digits. r = lit ''/'' @ seg @ lit ''/status/'' @ digits @ s' \<and>
           seg \<noteq> [] \<and> slash \<notin> set seg \<and> digits \<noteq> [] \<and> list_all (re_digit U) digits \<and>
           g' = Some digits"
proof -
  from assms obtain g1 s1 g2 s2 g3 s3 g4 where
      a: "(g1, s1) \<in> set (matches U (Chr slash) (g, r))"
  and b: "(g2, s2) \<in> set (matches U (Plus (NotChr slash)) (g1, s1))"
  and c: "(g3, s3) \<in> set (matches U (lits ''/status/'') (g2, s2))"
  and d: "(g4, s') \<in> set (matches U (Plus Digit) (g3, s3))"
  and e: "g' = Some (take (length s3 - length s') s3)"
    by (simp only: in_matches_Seq matches.simps(9)) auto
  from a have r: "r = lit ''/'' @ s1" by (simp add: in_matches_Chr lit_def slash_def)
  from plus_class_sound [OF char_class_NotChr b]
  obtain seg where seg: "seg \<noteq> []" "list_all (\<lambda>x. x \<noteq> slash) seg" "s1 = seg @ s2" by blast
  from c have s2: "s2 = lit ''/status/'' @ s3" by (simp only: in_matches_lits)
  from plus_class_sound [OF char_class_Digit d]
  obtain digits where dg: "digits \<noteq> []" "list_all (re_digit U) digits" "s3 = digits @ s'" by blast
  from e dg(3) have "g' = Some digits" by simp
  moreover from seg(2) have "slash \<notin> set seg" by (auto simp: list_all_iff)
  ultimately show ?thesis using r seg(1,3) s2 dg by auto
qed

lemma matches_head_sound:
  assumes "m \<in> set (matches U pattern (g, url))"
  shows "\<exists>scheme www host r. url = scheme @ lit ''://'' @ www @ host @ r \<and>
           (scheme = lit ''http'' \<or> scheme = lit ''https'') \<and>
           (www = [] \<or> www = lit ''www.'') \<and>
           (host = lit ''x.com'' \<or> host = lit ''twitter.com'') \<and>
           m \<in> set (matches U path_re (g, r))"
proof -
  from assms obtain x1 x2 x3 x4 x5 where
      a': "x1 \<in> set (matches U (lits ''http'') (g, url))"
  and b': "x2 \<in> set (matches U (Opt (Chr (of_char CHR ''s''))) x1)"
  and c': "x3 \<in> set (matches U (lits ''://'') x2)"
  and d': "x4 \<in> set (matches U (Opt (lits ''www.'')) x3)"
  and e': "x5 \<in> set (matches U (Alt (lits ''x.com'') (lits ''twitter.com'')) x4)"
  and f': "m \<in> set (matches U path_re x5)"
    unfolding pattern_def in_matches_Seq by blast
  obtain g1 s1 g2 s2 g3 s3 g4 s4 g5 s5 where
    x: "x1 = (g1, s1)" "x2 = (g2, s2)" "x3 = (g3, s3)" "x4 = (g4, s4)" "x5 = (g5, s5)"
    by (metis surj_pair)
  note a = a' [unfolded x] and b = b' [unfolded x] and c = c' [unfolded x]
   and d = d' [unfolded x] and e = e' [unfolded x] and f = f' [unfolded x]
  from a have 1: "g1 = g" "url = lit ''http'' @ s1" by (simp_all only: in_matches_lits)
  from b have 2: "g2 = g1" "s1 = lit ''s'' @ s2 \<or> s1 = s2"
    by (auto simp: in_matches_Chr lit_def simp del: matches.simps(2))
  from c have 3: "g3 = g2" "s2 = lit ''://'' @ s3" by (simp_all only: in_matches_lits)
  from d have 4: "g4 = g3" "s3 = lit ''www.'' @ s4 \<or> s3 = s4"
    by (auto simp: in_matches_lits simp del: lits.simps)
  from e have 5: "g5 = g4" "s4 = lit ''x.com'' @ s5 \<or> s4 = lit ''twitter.com'' @ s5"
    by (auto simp: in_matches_lits simp del: lits.simps)
  have sch: "lit ''http'' @ lit ''s'' = lit ''https''" by (simp add: lit_def)
  from 2(2) have "\<exists>scheme. (scheme = lit ''http'' \<or> scheme = lit ''https'') \<and> url = scheme @ s2"
    using 1(2) sch by auto
  moreover from 4(2) have "\<exists>www. (www = [] \<or> www = lit ''www.'') \<and> s3 = www @ s4" by auto
  moreover from 5(2) have "\<exists>host. (host = lit ''x.com'' \<or> host = lit ''twitter.com'') \<and> s4 = host @ s5"
    by auto
  ultimately obtain scheme www host where
    sw: "scheme = lit ''http'' \<or> scheme = lit ''https''" "url = scheme @ s2"
    "www = [] \<or> www = lit ''www.''" "s3 = www @ s4"
    "host = lit ''x.com'' \<or> host = lit ''twitter.com''" "s4 = host @ s5" by blast
  have u: "url = scheme @ lit ''://'' @ www @ host @ s5"
    by (simp only: sw(2) 3(2) sw(4) sw(6))
  have "g5 = g" by (simp only: 1(1) 2(1) 3(1) 4(1) 5(1))
  with f have "m \<in> set (matches U path_re (g, s5))" by (simp only:)
  with u sw(1,3,5) show ?thesis by blast
qed

lemma matches_pattern_sound:
  assumes "(g', s') \<in> set (matches U pattern (g, url))"
  shows "\<exists>p digits. url = p @ s' \<and> post_url_shape U p digits \<and> g' = Some digits"
proof -
  from matches_head_sound [OF assms] obtain scheme www host r where
    h: "url = scheme @ lit ''://'' @ www @ host @ r"
       "scheme = lit ''http'' \<or> scheme = lit ''https''"
       "www = [] \<or> www = lit ''www.''"
       "host = lit ''x.com'' \<or> host = lit ''twitter.com''"
       "(g', s') \<in> set (matches U path_re (g, r))" by blast
  from matches_path_sound [OF h(5)] obtain seg digits where
    t: "r = lit ''/'' @ seg @ lit ''/status/'' @ digits @ s'" "seg \<noteq> []" "slash \<notin> set seg"
       "digits \<noteq> []" "list_all (re_digit U) digits" "g' = Some digits" by blast
  let ?p = "scheme @ lit ''://'' @ www @ host @ lit ''/'' @ seg @ lit ''/status/'' @ digits"
  have "post_url_shape U ?p digits"
    unfolding post_url_shape_def using h(2-4) t(2-5) by blast
  moreover have "url = ?p @ s'" using h(1) t(1) by simp
  ultimately show ?thesis using t(6) by blast
qed

lemma matches_pattern_first:
  assumes "post_url_shape U p digits"
  shows "\<exists>ms. matches U pattern (g, p @ t) =
           (Some (digits @ takeWhile (re_digit U) t), dropWhile (re_digit U) t) # ms"
proof -
  from assms obtain scheme www host seg where
    p: "p = scheme @ lit ''://'' @ www @ host @ lit ''/'' @ seg @ lit ''/status/'' @ digits"
    and h: "scheme = lit ''http'' \<or> scheme = lit ''https''" "www = [] \<or> www = lit ''www.''"
       "host = lit ''x.com'' \<or> host = lit ''twitter.com''"
    and s: "seg \<noteq> []" "slash \<notin> set seg" "digits \<noteq> []" "list_all (re_digit U) digits"
    unfolding post_url_shape_def by blast
  have "matches U pattern (g, p @ t) =
        matches U path_re (g, lit ''/'' @ seg @ lit ''/status/'' @ digits @ t)"
    using matches_head [OF h, of U g "lit ''/'' @ seg @ lit ''/status/'' @ digits @ t"]
    by (simp add: p)
  with matches_path_first [OF s, of g t] show ?thesis by simp
qed


lemma re_digit_isdigit_char: "tables_ok U \<Longrightarrow> re_digit U c \<Longrightarrow> isdigit_char U c"
  by (auto simp: tables_ok_def re_digit_def isdigit_char_def)

lemma re_digits_isdigit:
  "tables_ok U \<Longrightarrow> ds \<noteq> [] \<Longrightarrow> list_all (re_digit U) ds \<Longrightarrow> isdigit U ds"
  by (auto simp: isdigit_def list_all_iff intro: re_digit_isdigit_char)

lemma extract_shape_prefix:
  assumes "tables_ok U" "post_url_shape U p digits"
  shows "extract_tweet_id_from_url U (p @ t) = Inr (digits @ takeWhile (re_digit U) t)"
proof -
  from matches_pattern_first [OF assms(2), of None t] obtain ms where
    m: "matches U pattern (None, p @ t) =
          (Some (digits @ takeWhile (re_digit U) t), dropWhile (re_digit U) t) # ms" by blast
  from assms(2) have d: "digits \<noteq> []" "list_all (re_digit U) digits"
    by (auto simp: post_url_shape_def)
  have "list_all (re_digit U) (takeWhile (re_digit U) t)"
    by (simp add: list_all_iff) (meson set_takeWhileD)
  with d have "isdigit U (digits @ takeWhile (re_digit U) t)"
    by (intro re_digits_isdigit [OF assms(1)]) simp_all
  with m show ?thesis
    by (simp add: extract_tweet_id_from_url_def re_match_def)
qed

lemma extract_no_match:
  assumes "\<not> (\<exists>p t digits. url = p @ t \<and> post_url_shape U p digits)"
  shows "extract_tweet_id_from_url U url = Inl (invalid_url url)"
proof -
  have "matches U pattern (None, url) = []"
  proof (rule ccontr)
    assume "matches U pattern (None, url) \<noteq> []"
    then obtain g' s' where "(g', s') \<in> set (matches U pattern (None, url))"
      by (cases "matches U pattern (None, url)") auto
    from matches_pattern_sound [OF this] assms show False by blast
  qed
  then show ?thesis by (simp add: extract_tweet_id_from_url_def re_match_def)
qed


subsection \<open>ASCII input\<close>

text \<open>
  On an ASCII string the matcher and the extractor do not look at the tables beyond ASCII:
  a run with \<open>ascii_tables\<close> on such a string is the run with any tables.
\<close>

lemma matches_suffix:
  "m \<in> set (matches U r st) \<Longrightarrow> \<exists>p. snd st = p @ snd m"
proof (induction U r st arbitrary: m rule: matches.induct)
  case (1 U st)
  then show ?case by simp
next
  case (2 U c g s)
  then show ?case by (cases s) (auto split: if_splits)
next
  case (3 U c g s)
  then show ?case by (cases s) (auto split: if_splits)
next
  case (4 U g s)
  then show ?case by (cases s) (auto split: if_splits)
next
  case (5 U a b st)
  from "5.prems" obtain x where x: "x \<in> set (matches U a st)" "m \<in> set (matches U b x)"
    by auto
  from "5.IH"(1) [OF x(1)] "5.IH"(2) [OF x(1) x(2)] show ?case
    by (metis append.assoc)
next
  case (6 U a b st)
  from "6.prems" have "m \<in> set (matches U a st) \<or> m \<in> set (matches U b st)" by simp
  with "6.IH" show ?case by blast
next
  case (7 U a st)
  from "7.prems" have "m \<in> set (matches U a st) \<or> m = st" by auto
  then show ?case
  proof
    assume "m \<in> set (matches U a st)"
    then show ?thesis by (rule "7.IH")
  next
    assume "m = st"
    then show ?thesis by simp
  qed
next
  case (8 U a g s)
  from "8.prems" have "m \<in> set (concat (map (\<lambda>(g', s').
          (if length s' < length s then matches U (Plus a) (g', s') else []) @ [(g', s')])
          (matches U a (g, s))))"
    by (subst (asm) matches.simps(8))
  then obtain g1 s1 where x: "(g1, s1) \<in> set (matches U a (g, s))"
    and m: "(length s1 < length s \<and> m \<in> set (matches U (Plus a) (g1, s1))) \<or> m = (g1, s1)"
    by (auto split: if_splits)
  from "8.IH"(1) [OF x] obtain p where p: "s = p @ s1" by auto
  from m show ?case
  proof
    assume a: "length s1 < length s \<and> m \<in> set (matches U (Plus a) (g1, s1))"
    then have l: "length s1 < length s" and mm: "m \<in> set (matches U (Plus a) (g1, s1))"
      by simp_all
    have "\<exists>q. snd (g1, s1) = q @ snd m" by (rule "8.IH"(2) [OF x refl l mm])
    then obtain q where "s1 = q @ snd m" by auto
    with p show ?thesis by simp
  next
    assume "m = (g1, s1)"
    with p show ?thesis by simp
  qed
next
  case (9 U a g s)
  from "9.prems" obtain g1 s1 where "(g1, s1) \<in> set (matches U a (g, s))" "snd m = s1"
    by auto
  with "9.IH" [of "(g1, s1)"] show ?case by auto
qed


lemma re_digit_ascii: "c < 128 \<Longrightarrow> re_digit U c = ascii_digit c"
  by (simp add: re_digit_def)

lemma matches_ascii:
  "is_ascii (snd st) \<Longrightarrow> matches U r st = matches U' r st"
proof (induction U r st rule: matches.induct)
  case (1 U st)
  show ?case by simp
next
  case (2 U c g s)
  show ?case by simp
next
  case (3 U c g s)
  show ?case by simp
next
  case (4 U g s)
  then show ?case by (cases s) (simp_all add: is_ascii_def re_digit_ascii)
next
  case (5 U a b st)
  have a: "matches U a st = matches U' a st" by (rule "5.IH"(1) [OF "5.prems"])
  have mm: "map (matches U b) (matches U a st) = map (matches U' b) (matches U a st)"
  proof (rule map_cong [OF refl])
    fix x assume x: "x \<in> set (matches U a st)"
    from matches_suffix [OF x] obtain p where "snd st = p @ snd x" by blast
    with "5.prems" have "is_ascii (snd x)" by (simp add: is_ascii_def)
    from "5.IH"(2) [OF x this] show "matches U b x = matches U' b x" .
  qed
  have "matches U (Seq a b) st = concat (map (matches U b) (matches U a st))" by simp
  also have "\<dots> = concat (map (matches U' b) (matches U a st))" by (simp only: mm)
  also have "\<dots> = concat (map (matches U' b) (matches U' a st))" by (simp only: a)
  also have "\<dots> = matches U' (Seq a b) st" by simp
  finally show ?case .
next
  case (6 U a b st)
  from "6.IH" "6.prems" show ?case by simp
next
  case (7 U a st)
  from "7.IH" "7.prems" show ?case by simp
next
  case (8 U a g s)
  have a: "matches U a (g, s) = matches U' a (g, s)" using "8.IH"(1) "8.prems" by simp
  let ?f = "\<lambda>V (g', s'). (if length s' < length s then matches V (Plus a) (g', s') else []) @ [(g', s')]"
  have mm: "map (?f U) (matches U a (g, s)) = map (?f U') (matches U a (g, s))"
  proof (rule map_cong [OF refl])
    fix x assume x: "x \<in> set (matches U a (g, s))"
    obtain g1 s1 where x1: "x = (g1, s1)" by (cases x)
    from matches_suffix [OF x] x1 obtain p where "s = p @ s1" by auto
    with "8.prems" have asc: "is_ascii s1" by (simp add: is_ascii_def)
    have "length s1 < length s \<Longrightarrow> matches U (Plus a) (g1, s1) = matches U' (Plus a) (g1, s1)"
      using "8.IH"(2) [OF x [unfolded x1] refl] asc by simp
    then show "?f U x = ?f U' x" by (simp add: x1)
  qed
  have "matches U (Plus a) (g, s) = concat (map (?f U) (matches U a (g, s)))"
    by (rule matches.simps(8))
  also have "\<dots> = concat (map (?f U') (matches U a (g, s)))" by (simp only: mm)
  also have "\<dots> = concat (map (?f U') (matches U' a (g, s)))" by (simp only: a)
  also have "\<dots> = matches U' (Plus a) (g, s)" by (rule matches.simps(8) [symmetric])
  finally show ?case .
next
  case (9 U a g s)
  from "9.IH" "9.prems" show ?case by simp
qed

lemma isdigit_ascii: "is_ascii s \<Longrightarrow> isdigit U s = isdigit U' s"
  by (auto simp: isdigit_def is_ascii_def isdigit_char_def list_all_iff)

lemma extract_ascii:
  assumes "is_ascii url"
  shows "extract_tweet_id_from_url U url = extract_tweet_id_from_url U' url"
proof -
  have m: "matches U pattern (None, url) = matches U' pattern (None, url)"
    using assms by (simp add: matches_ascii)
  show ?thesis
  proof (cases "matches U' pattern (None, url)")
    case Nil
    with m show ?thesis by (simp add: extract_tweet_id_from_url_def re_match_def)
  next
    case (Cons x xs)
    obtain g1 s1 where x: "x = (g1, s1)" by (cases x)
    have "x \<in> set (matches U' pattern (None, url))" using Cons by simp
    from matches_pattern_sound [OF this [unfolded x]] obtain p digits where
      d: "url = p @ s1" "post_url_shape U' p digits" "g1 = Some digits" by blast
    then have "is_ascii digits"
      using assms by (auto simp: post_url_shape_def is_ascii_def)
    from isdigit_ascii [OF this, of U U'] m Cons x d(3) show ?thesis
      by (simp add: extract_tweet_id_from_url_def re_match_def)
  qed
qed

lemma tables_ok_ascii: "tables_ok ascii_tables"
  by (simp add: tables_ok_def ascii_tables_def)

section \<open>Identifier extractor\<close>

text \<open>
  Claim C1. For every string of the shape scheme \<open>http\<close> or \<open>https\<close>, optional \<open>www.\<close>,
  host \<open>x.com\<close> or \<open>twitter.com\<close>, then a segment without slash, \<open>/status/\<close> and digits,
  the extractor returns exactly the digits.
\<close>

theorem extract_returns_digits:
  assumes "tables_ok U" and "post_url_shape U url digits"
  shows "extract_tweet_id_from_url U url = Inr digits"
  using extract_shape_prefix [OF assms, of "[]"] by simp

theorem extract_returns_digits_witness:
  "tables_ok ascii_tables \<and>
   post_url_shape ascii_tables (lit ''https://x.com/user/status/123456789'') (lit ''123456789'') \<and>
   extract_tweet_id_from_url ascii_tables (lit ''https://x.com/user/status/123456789'') =
     Inr (lit ''123456789'')"
proof -
  have s: "post_url_shape ascii_tables (lit ''https://x.com/user/status/123456789'')
             (lit ''123456789'')"
    unfolding post_url_shape_def
    apply (rule exI [of _ "lit ''https''"], rule exI [of _ "[]"])
    apply (rule exI [of _ "lit ''x.com''"], rule exI [of _ "lit ''user''"])
    apply (simp add: lit_def slash_def re_digit_def ascii_digit_def)
    done
  from extract_returns_digits [OF tables_ok_ascii s] tables_ok_ascii s show ?thesis by simp
qed

text \<open>
  Claim C2, as stated: every string that does not have the post-URL shape, a string with a
  non-digit suffix after the identifier included, is rejected with the invalid-URL error.
  It fails on the code: \<open>https://x.com/user/status/123abc\<close> does not have the shape, and
  the extractor returns \<open>123\<close>.
\<close>

theorem extract_nondigit_suffix_counterexample:
  "\<not> (\<exists>digits. post_url_shape ascii_tables (lit ''https://x.com/user/status/123abc'') digits) \<and>
   extract_tweet_id_from_url ascii_tables (lit ''https://x.com/user/status/123abc'') =
     Inr (lit ''123'')"
proof
  show "\<not> (\<exists>digits. post_url_shape ascii_tables (lit ''https://x.com/user/status/123abc'') digits)"
  proof
    assume "\<exists>digits. post_url_shape ascii_tables (lit ''https://x.com/user/status/123abc'') digits"
    then obtain digits pre where
      "lit ''https://x.com/user/status/123abc'' = pre @ digits" "digits \<noteq> []"
      "list_all (re_digit ascii_tables) digits"
      unfolding post_url_shape_def by (metis append.assoc)
    then have "re_digit ascii_tables (last (lit ''https://x.com/user/status/123abc''))"
      by (simp add: list_all_iff)
    then show False by (simp add: lit_def re_digit_def ascii_digit_def)
  qed
  show "extract_tweet_id_from_url ascii_tables (lit ''https://x.com/user/status/123abc'') =
          Inr (lit ''123'')"
    by code_simp
qed

text \<open>
  Claim C2, amended: the extractor fails with the invalid-URL error, whose message ends
  with the input, exactly when no prefix of the input has the post-URL shape (wrong host,
  no \<open>/status/\<close>, no digit right after \<open>/status/\<close>).
\<close>

theorem extract_invalid_iff:
  assumes "tables_ok U"
  shows "extract_tweet_id_from_url U url =
           Inl (ValueError (lit ''Invalid URL or does not contain a valid post ID: '' @ url))
         \<longleftrightarrow> \<not> (\<exists>p t digits. url = p @ t \<and> post_url_shape U p digits)"
proof
  assume l: "extract_tweet_id_from_url U url =
           Inl (ValueError (lit ''Invalid URL or does not contain a valid post ID: '' @ url))"
  show "\<not> (\<exists>p t digits. url = p @ t \<and> post_url_shape U p digits)"
  proof
    assume "\<exists>p t digits. url = p @ t \<and> post_url_shape U p digits"
    then obtain p t digits where "url = p @ t" "post_url_shape U p digits" by blast
    with extract_shape_prefix [OF assms this(2), of t] l show False by simp
  qed
next
  assume "\<not> (\<exists>p t digits. url = p @ t \<and> post_url_shape U p digits)"
  from extract_no_match [OF this] show "extract_tweet_id_from_url U url =
           Inl (ValueError (lit ''Invalid URL or does not contain a valid post ID: '' @ url))"
    by (simp add: invalid_url_def)
qed

theorem extract_invalid_iff_witness:
  "tables_ok ascii_tables \<and>
   \<not> (\<exists>p t digits. lit ''https://example.com/user/status/123'' = p @ t \<and>
        post_url_shape ascii_tables p digits) \<and>
   extract_tweet_id_from_url ascii_tables (lit ''https://example.com/user/status/123'') =
     Inl (ValueError (lit ''Invalid URL or does not contain a valid post ID: '' @
                      lit ''https://example.com/user/status/123''))"
proof -
  have n: "\<not> (\<exists>p t digits. lit ''https://example.com/user/status/123'' = p @ t \<and>
                post_url_shape ascii_tables p digits)"
    by (auto simp: post_url_shape_def lit_def)
  from extract_invalid_iff [OF tables_ok_ascii, of "lit ''https://example.com/user/status/123''"]
    n tables_ok_ascii
  show ?thesis by blast
qed

text \<open>
  Claim C3. Extraction is a prefix match anchored at the start: for a string that begins
  with a post-URL shape, whatever follows, extraction succeeds and returns the digits
  after \<open>/status/\<close>: the digits of the shape, continued by the digits the trailing content
  starts with, hence exactly the digits of the shape when the trailing content is empty or
  starts with a non-digit.
\<close>

theorem extract_prefix_match:
  assumes "tables_ok U" and "post_url_shape U p digits"
  shows "extract_tweet_id_from_url U (p @ t) = Inr (digits @ takeWhile (re_digit U) t) \<and>
         (t = [] \<or> \<not> re_digit U (hd t) \<longrightarrow> extract_tweet_id_from_url U (p @ t) = Inr digits)"
proof -
  have "t = [] \<or> \<not> re_digit U (hd t) \<Longrightarrow> takeWhile (re_digit U) t = []"
    by (cases t) auto
  with extract_shape_prefix [OF assms, of t] show ?thesis by auto
qed

theorem extract_prefix_match_witness:
  "tables_ok ascii_tables \<and>
   post_url_shape ascii_tables (lit ''http://www.twitter.com/alice/status/42'') (lit ''42'') \<and>
   \<not> re_digit ascii_tables (hd (lit ''?s=20'')) \<and>
   extract_tweet_id_from_url ascii_tables (lit ''http://www.twitter.com/alice/status/42'' @ lit ''?s=20'') =
     Inr (lit ''42'')"
proof -
  have s: "post_url_shape ascii_tables (lit ''http://www.twitter.com/alice/status/42'') (lit ''42'')"
    unfolding post_url_shape_def
    apply (rule exI [of _ "lit ''http''"], rule exI [of _ "lit ''www.''"])
    apply (rule exI [of _ "lit ''twitter.com''"], rule exI [of _ "lit ''alice''"])
    apply (simp add: lit_def slash_def re_digit_def ascii_digit_def)
    done
  have d: "\<not> re_digit ascii_tables (hd (lit ''?s=20''))"
    by (simp add: lit_def re_digit_def ascii_digit_def)
  from extract_prefix_match [OF tables_ok_ascii s, of "lit ''?s=20''"] tables_ok_ascii s d
  show ?thesis by blast
qed


section \<open>Quote resolver\<close>

lemma isdigit_not_http: "isdigit U q \<Longrightarrow> \<not> startswith q (lit ''http'')"
proof
  assume d: "isdigit U q" and h: "startswith q (lit ''http'')"
  from h obtain r where "q = 104 # r"
    by (cases q) (auto simp: startswith_def lit_def)
  with d show False by (simp add: isdigit_def isdigit_char_def ascii_digit_def)
qed

lemma post_quote_rejects_non_isdigit:
  assumes "\<not> startswith q (lit ''http'')" and "\<not> isdigit U q"
  shows "post_quote U client message q =
           ([], Inl (ValueError (lit ''quote_tweet_id must be a string representing a valid numeric ID.'')))"
  using assms by (simp add: post_quote_def invalid_quote_id_def)

lemma post_quote_not_a_url_example:
  "post_quote ascii_tables client (lit ''hello world'') (lit ''not-a-url'') =
     ([], Inl (ValueError (lit ''quote_tweet_id must be a string representing a valid numeric ID.'')))"
proof -
  have a: "\<not> startswith (lit ''not-a-url'') (lit ''http'')" by (simp add: startswith_def lit_def)
  have b: "\<not> isdigit ascii_tables (lit ''not-a-url'')"
    by (simp add: isdigit_def isdigit_char_def ascii_digit_def lit_def)
  from post_quote_rejects_non_isdigit [OF a b] show ?thesis .
qed

lemma post_quote_superscript_two:
  assumes "digit_nonascii U 178"
  shows "post_quote U client message [178] =
           ([CreateTweet message (Some [178])], client message (Some [178]))"
  using assms
  by (simp add: post_quote_def startswith_def lit_def isdigit_def isdigit_char_def)

lemma extract_rejects_superscript_two:
  "extract_tweet_id_from_url latin1_tables (lit ''https://x.com/user/status/'' @ [178]) =
     Inl (invalid_url (lit ''https://x.com/user/status/'' @ [178]))"
  by code_simp

text \<open>
  Claim C4 says that a reference that does not start with \<open>http\<close> and is not a non-empty
  digit-only string is rejected with the validation error. The check of the code is
  \<open>str.isdigit\<close>: it rejects the empty string and every string with a character that is no
  digit for it (\<open>post_quote_rejects_non_isdigit\<close>), but it accepts characters that are not
  decimal digits. The reference \<open>[178]\<close>, the superscript two (U+00B2), does not start with
  \<open>http\<close> and is no string of decimal digits, and the gateway is called with it. The same
  character in the place of the identifier of a URL is rejected
  (\<open>extract_rejects_superscript_two\<close>).
\<close>

theorem post_quote_accepts_superscript_two:
  "\<not> startswith [178] (lit ''http'') \<and>
   \<not> list_all ascii_digit [178] \<and>
   \<not> list_all (re_digit latin1_tables) [178] \<and>
   post_quote latin1_tables client message [178] =
     ([CreateTweet message (Some [178])], client message (Some [178]))"
proof -
  have "digit_nonascii latin1_tables 178" by (simp add: latin1_tables_def)
  from post_quote_superscript_two [OF this, of client message] show ?thesis
    by (simp add: startswith_def lit_def ascii_digit_def re_digit_def latin1_tables_def)
qed

text \<open>
  Claim C5. A non-empty digit-only reference is resolved to itself, and the gateway is called
  once, with the message and that identifier.
\<close>

theorem post_quote_numeric_reference:
  assumes "isdigit U q"
  shows "post_quote U client message q = ([CreateTweet message (Some q)], client message (Some q))"
  using assms isdigit_not_http [OF assms] by (simp add: post_quote_def)

theorem post_quote_numeric_reference_witness:
  "isdigit ascii_tables (lit ''123456789'') \<and>
   post_quote ascii_tables (\<lambda>m q. Inr (lit ''1'')) (lit ''hello world'') (lit ''123456789'') =
     ([CreateTweet (lit ''hello world'') (Some (lit ''123456789''))], Inr (lit ''1''))"
proof -
  have a: "isdigit ascii_tables (lit ''123456789'')"
    by (simp add: isdigit_def isdigit_char_def ascii_digit_def lit_def)
  from post_quote_numeric_reference [OF a, of "\<lambda>m q. Inr (lit ''1'')" "lit ''hello world''"] a
  show ?thesis by simp
qed


section \<open>Access gate\<close>

lemma password_entered_flag:
  "password_entered sec ss = Inr ss' \<Longrightarrow>
   (ss' ''password_correct'' = Some (PBool True) \<or> ss' ''password_correct'' = Some (PBool False)) \<and>
   ss' ''password_input'' = None"
  by (auto simp: password_entered_def split: option.splits sum.splits if_splits)

lemma password_entered_true:
  "password_entered sec ss = Inr ss' \<Longrightarrow> ss' ''password_correct'' = Some (PBool True) \<Longrightarrow>
   \<exists>pw. ss ''password_input'' = Some (PStr pw) \<and> secret sec ''APP_PASSWORD'' = Inr pw \<and> is_ascii pw"
  by (auto simp: password_entered_def compare_digest_def
           split: option.splits sum.splits if_splits pyval.splits)

lemma check_password_no_client:
  "check_password sec ui ss = (ss1, a1, g) \<Longrightarrow> \<forall>a\<in>set a1. \<not> is_client_action a"
  by (auto simp: check_password_def Let_def login_form_def incorrect_password_def is_client_action_def
           split: if_splits sum.splits)

lemma check_password_returned:
  "check_password sec ui ss = (ss1, a1, Returned ok) \<Longrightarrow> ok \<and> password_correct_flag ss1"
  by (auto simp: check_password_def Let_def split: if_splits sum.splits)

lemma check_password_flag:
  assumes "check_password sec ui ss = (ss1, a1, g)"
      and "ss ''password_correct'' \<in> {None, Some (PBool True), Some (PBool False)}"
  shows "ss1 ''password_correct'' \<in> {None, Some (PBool True), Some (PBool False)}"
  using assms
  by (auto simp: check_password_def Let_def split: if_splits sum.splits
           dest!: password_entered_flag)

lemma check_password_origin:
  assumes "check_password sec ui ss = (ss1, a1, g)" and "authenticated ss1"
  shows "authenticated ss \<or> (submit ui \<and> secret sec ''APP_PASSWORD'' = Inr (password_field ui))"
  using assms
  by (auto simp: check_password_def Let_def authenticated_def split: if_splits sum.splits
           dest!: password_entered_true)

lemma flag_authenticated:
  "ss ''password_correct'' \<in> {None, Some (PBool True), Some (PBool False)} \<Longrightarrow>
   password_correct_flag ss = authenticated ss"
  by (auto simp: password_correct_flag_def authenticated_def truthy_def)

lemma check_password_ascii:
  assumes "\<not> password_correct_flag ss" and "submit ui"
      and "secret sec ''APP_PASSWORD'' = Inr app_password" and "is_ascii app_password"
      and "is_ascii (password_field ui)"
  shows "check_password sec ui ss =
           (if password_field ui = app_password
            then ((ss(''password_correct'' \<mapsto> PBool True))(''password_input'' := None),
                  login_form, Returned True)
            else ((ss(''password_correct'' \<mapsto> PBool False))(''password_input'' := None),
                  login_form @ [incorrect_password], Stopped))"
  using assms
  by (simp add: check_password_def password_entered_def compare_digest_def Let_def
                password_correct_flag_def truthy_def)

text \<open>
  Claim C6 says that submitting the configured secret unlocks the gate. The comparison
  raises on a string that is not ASCII: with the secret \<open>umlaut_password\<close>, submitting
  exactly that secret ends the run with \<open>TypeError\<close> and the session stays locked.
\<close>

theorem check_password_non_ascii_secret:
  "check_password (Some (password_store umlaut_password)) (login_ui umlaut_password) Map.empty =
     ([''password_input'' \<mapsto> PStr umlaut_password], login_form,
      Raised (TypeError (lit ''comparing strings with non-ASCII characters is not supported''))) \<and>
   \<not> authenticated [''password_input'' \<mapsto> PStr umlaut_password]"
  by (simp add: check_password_def password_entered_def compare_digest_def Let_def
                password_correct_flag_def login_ui_def idle_ui_def umlaut_password_def is_ascii_def
                lit_def authenticated_def secret_def password_store_def)

text \<open>
  Claim C10 says that the entered password is removed from the session state after every
  submission. The two branches of the callback remove it (\<open>password_entered_flag\<close>), but
  when the comparison raises neither branch runs: after submitting \<open>umlaut_password\<close> the
  session state still holds it under \<open>password_input\<close>.
\<close>

theorem password_kept_on_non_ascii_input:
  "password_entered (Some (password_store (lit ''secret''))) [''password_input'' \<mapsto> PStr umlaut_password] =
     Inl (TypeError (lit ''comparing strings with non-ASCII characters is not supported'')) \<and>
   fst (check_password (Some (password_store (lit ''secret''))) (login_ui umlaut_password) Map.empty)
     ''password_input'' = Some (PStr umlaut_password)"
  by (simp add: check_password_def password_entered_def compare_digest_def Let_def
                password_correct_flag_def login_ui_def idle_ui_def umlaut_password_def is_ascii_def
                lit_def secret_def password_store_def)


section \<open>Presentation layer\<close>

lemma protected_content_state:
  "protected_content e config ui ss1 = (ss2, a2, r) \<Longrightarrow>
   ss2 = ss1 \<or> ss2 = ss1(''password_correct'' := None)"
  by (auto simp: protected_content_def Let_def split: sum.splits option.splits if_splits)

lemma protected_content_no_credentials:
  "load_credentials (secrets e) = Inl err \<Longrightarrow>
   protected_content e config ui ss1 = (ss1, [], Raised err)"
  by (simp add: protected_content_def)

lemma main_cases:
  assumes "main e ui ss = (ss', acts, r)"
  shows "(\<exists>err. r = Raised err \<and> acts = [] \<and> ss' = ss)
       \<or> (\<exists>t err. r = Raised err \<and> acts = [PageConfig t] \<and> ss' = ss)
       \<or> (\<exists>a0 config ss1 a1 g. list_all (\<lambda>a. \<not> is_client_action a) a0 \<and>
            load_config e = Inr config \<and>
            check_password (secrets e) ui ss = (ss1, a1, g) \<and>
            (case g of
               Returned ok \<Rightarrow> (\<exists>a2. protected_content e config ui ss1 = (ss', a2, r) \<and> acts = a0 @ a1 @ a2)
             | Stopped \<Rightarrow> ss' = ss1 \<and> acts = a0 @ a1 \<and> r = Stopped
             | Rerun \<Rightarrow> False
             | Raised err \<Rightarrow> ss' = ss1 \<and> acts = a0 @ a1 \<and> r = Raised err))"
proof (cases "load_config e")
  case (Inl err)
  with assms show ?thesis by (auto simp: main_def)
next
  case (Inr config)
  show ?thesis
  proof (cases "config ''page_title''")
    case None
    with Inr assms show ?thesis by (auto simp: main_def)
  next
    case (Some t)
    note t = this
    show ?thesis
    proof (cases "config ''textarea_font_size''")
      case None
      with Inr t assms show ?thesis by (auto simp: main_def)
    next
      case (Some fs)
      obtain ss1 a1 g where cp: "check_password (secrets e) ui ss = (ss1, a1, g)"
        by (metis prod_cases3)
      have a0: "list_all (\<lambda>a. \<not> is_client_action a) [PageConfig t, Css fs]"
        by (simp add: is_client_action_def)
      show ?thesis
      proof (cases g)
        case (Returned ok)
        with cp check_password_returned have ok by blast
        with Returned cp Inr t Some assms a0 show ?thesis
          apply (intro disjI2)
          apply (rule exI [of _ "[PageConfig t, Css fs]"], rule exI [of _ config])
          apply (rule exI [of _ ss1], rule exI [of _ a1], rule exI [of _ g])
          apply (auto simp: main_def Let_def split: prod.splits)
          done
      next
        case Stopped
        with cp Inr t Some assms a0 show ?thesis
          apply (intro disjI2)
          apply (rule exI [of _ "[PageConfig t, Css fs]"], rule exI [of _ config])
          apply (rule exI [of _ ss1], rule exI [of _ a1], rule exI [of _ g])
          apply (auto simp: main_def Let_def split: prod.splits)
          done
      next
        case Rerun
        with cp have False
          by (auto simp: check_password_def Let_def split: if_splits sum.splits)
        then show ?thesis ..
      next
        case (Raised err)
        with cp Inr t Some assms a0 show ?thesis
          apply (intro disjI2)
          apply (rule exI [of _ "[PageConfig t, Css fs]"], rule exI [of _ config])
          apply (rule exI [of _ ss1], rule exI [of _ a1], rule exI [of _ g])
          apply (auto simp: main_def Let_def split: prod.splits)
          done
      qed
    qed
  qed
qed


lemma main_flag:
  assumes "main e ui ss = (ss', acts, r)"
      and "ss ''password_correct'' \<in> {None, Some (PBool True), Some (PBool False)}"
  shows "ss' ''password_correct'' \<in> {None, Some (PBool True), Some (PBool False)}"
proof -
  from main_cases [OF assms(1)]
  have "ss' = ss \<or> (\<exists>ss1 a1 g. check_password (secrets e) ui ss = (ss1, a1, g) \<and>
          (ss' = ss1 \<or> ss' = ss1(''password_correct'' := None)))"
  proof (elim disjE exE conjE)
    fix a0 config ss1 a1 g
    assume cp: "check_password (secrets e) ui ss = (ss1, a1, g)"
      and g: "case g of
               Returned ok \<Rightarrow> (\<exists>a2. protected_content e config ui ss1 = (ss', a2, r) \<and> acts = a0 @ a1 @ a2)
             | Stopped \<Rightarrow> ss' = ss1 \<and> acts = a0 @ a1 \<and> r = Stopped
             | Rerun \<Rightarrow> False
             | Raised err \<Rightarrow> ss' = ss1 \<and> acts = a0 @ a1 \<and> r = Raised err"
    from g have "ss' = ss1 \<or> ss' = ss1(''password_correct'' := None)"
      by (cases g) (auto dest: protected_content_state)
    with cp show ?thesis by blast
  qed simp_all
  then show ?thesis
  proof (elim disjE exE conjE)
    assume "ss' = ss"
    with assms(2) show ?thesis by simp
  next
    fix ss1 a1 g
    assume "check_password (secrets e) ui ss = (ss1, a1, g)" "ss' = ss1"
    with check_password_flag [OF this(1) assms(2)] show ?thesis by simp
  next
    fix ss1 a1 g
    assume "check_password (secrets e) ui ss = (ss1, a1, g)" "ss' = ss1(''password_correct'' := None)"
    then show ?thesis by simp
  qed
qed

lemma reachable_flag:
  "reachable e ss \<Longrightarrow> ss ''password_correct'' \<in> {None, Some (PBool True), Some (PBool False)}"
  by (induction rule: reachable.induct) (simp, rule main_flag)


subsection \<open>Runs on the example inputs\<close>

lemma extract_example: "extract_tweet_id_from_url ascii_tables (lit ''https://x.com/alice/status/1234567890123456789'')
   = Inr (lit ''1234567890123456789'')"
  by code_simp

lemma demo_config_values:
  "demo_config ''page_title'' = Some (CStr (lit ''xpost''))"
  "demo_config ''textarea_font_size'' = Some (CInt 16)"
  "demo_config ''textarea_max_chars'' = Some (CInt 280)"
  "demo_config ''textarea_height'' = Some (CInt 100)"
  by (simp_all add: demo_config_def)

lemma load_config_demo: "load_config demo_env = Inr demo_config"
  by (simp add: load_config_def demo_env_def demo_store_def)

lemma app_password_demo: "secret (secrets demo_env) ''APP_PASSWORD'' = Inr (lit ''secret'')"
  by (simp add: secret_def demo_env_def demo_store_def)

lemma load_credentials_demo: "load_credentials (secrets demo_env) = Inr demo_credentials"
  by (simp add: load_credentials_def secret_def demo_env_def demo_store_def demo_credentials_def)

lemma check_password_login_example:
  "check_password (secrets demo_env) (login_ui (lit ''secret'')) Map.empty =
     (unlocked_session, login_form, Returned True)"
proof -
  have "\<not> password_correct_flag Map.empty" "submit (login_ui (lit ''secret''))"
    "is_ascii (lit ''secret'')" "password_field (login_ui (lit ''secret'')) = lit ''secret''"
    by (simp_all add: password_correct_flag_def login_ui_def idle_ui_def is_ascii_def lit_def)
  with check_password_ascii [OF this(1,2) app_password_demo this(3)] show ?thesis
    by (simp add: unlocked_session_def fun_upd_twist)
qed

lemma main_login_example:
  "main demo_env (login_ui (lit ''secret'')) Map.empty =
     (unlocked_session,
      [PageConfig (CStr (lit ''xpost'')), Css (CInt 16)] @ login_form @
      [NewClient demo_credentials, Title (lit ''Post on X''),
       Markdown (lit ''Enter the text and optionally a URL to quote.''),
       TextArea (CInt 280) (CInt 100), QuoteInput, Button (lit ''Post on X''),
       Button (lit ''Logout'')],
      Returned ())"
proof -
  have pc: "protected_content demo_env demo_config (login_ui (lit ''secret'')) unlocked_session =
    (unlocked_session,
     [NewClient demo_credentials, Title (lit ''Post on X''),
      Markdown (lit ''Enter the text and optionally a URL to quote.''),
      TextArea (CInt 280) (CInt 100), QuoteInput, Button (lit ''Post on X''),
      Button (lit ''Logout'')], Returned ())"
    unfolding protected_content_def load_credentials_demo
    by (simp add: demo_config_values Let_def login_ui_def idle_ui_def)
  show ?thesis
    unfolding main_def load_config_demo check_password_login_example
    by (simp add: pc demo_config_values Let_def)
qed

lemma reachable_unlocked: "reachable demo_env unlocked_session"
  by (rule reachable.step [OF reachable.start main_login_example])

lemma check_password_unlocked:
  "check_password sec ui unlocked_session = (unlocked_session, [], Returned True)"
  by (simp add: check_password_def password_correct_flag_def truthy_def unlocked_session_def)

lemma post_quote_example: "post_quote ascii_tables client (lit ''hello world'')
     (lit ''https://x.com/alice/status/1234567890123456789'') =
   ([CreateTweet (lit ''hello world'') (Some (lit ''1234567890123456789''))],
    client (lit ''hello world'') (Some (lit ''1234567890123456789'')))"
proof -
  have "startswith (lit ''https://x.com/alice/status/1234567890123456789'') (lit ''http'')"
    by (simp add: startswith_def lit_def)
  moreover have "isdigit ascii_tables (lit ''1234567890123456789'')"
    by (simp add: isdigit_def isdigit_char_def ascii_digit_def lit_def)
  ultimately show ?thesis by (simp add: post_quote_def extract_example)
qed

lemma main_quote_post_example:
  "main demo_env quote_post_ui unlocked_session =
     (unlocked_session,
      [PageConfig (CStr (lit ''xpost'')), Css (CInt 16),
       NewClient demo_credentials, Title (lit ''Post on X''),
       Markdown (lit ''Enter the text and optionally a URL to quote.''),
       TextArea (CInt 280) (CInt 100), QuoteInput, Button (lit ''Post on X''),
       CreateTweet (lit ''hello world'') (Some (lit ''1234567890123456789'')),
       SuccessMsg (lit ''Posted successfully! ID: '' @ lit ''1''),
       Button (lit ''Logout'')],
      Returned ())"
proof -
  have q: "quote_url_field quote_post_ui = lit ''https://x.com/alice/status/1234567890123456789''"
    "text_field quote_post_ui = lit ''hello world''" "post_button quote_post_ui"
    "\<not> logout_button quote_post_ui"
    by (simp_all add: quote_post_ui_def)
  have ne: "lit ''https://x.com/alice/status/1234567890123456789'' \<noteq> []" "lit ''hello world'' \<noteq> []"
    by (simp_all add: lit_def)
  have sp: "submit_post ascii_tables (\<lambda>message quote. Inr (lit ''1'')) quote_post_ui =
      [CreateTweet (lit ''hello world'') (Some (lit ''1234567890123456789'')),
       SuccessMsg (lit ''Posted successfully! ID: '' @ lit ''1'')]"
    by (simp add: submit_post_def q ne post_quote_example)
  have pc: "protected_content demo_env demo_config quote_post_ui unlocked_session =
    (unlocked_session,
     [NewClient demo_credentials, Title (lit ''Post on X''),
      Markdown (lit ''Enter the text and optionally a URL to quote.''),
      TextArea (CInt 280) (CInt 100), QuoteInput, Button (lit ''Post on X''),
      CreateTweet (lit ''hello world'') (Some (lit ''1234567890123456789'')),
      SuccessMsg (lit ''Posted successfully! ID: '' @ lit ''1''),
      Button (lit ''Logout'')], Returned ())"
    unfolding protected_content_def load_credentials_demo
    by (simp add: q demo_config_values Let_def) (simp add: demo_env_def sp)
  show ?thesis
    unfolding main_def load_config_demo check_password_unlocked
    by (simp add: pc demo_config_values Let_def)
qed

lemma check_password_idle:
  "check_password sec idle_ui Map.empty =
     ([''password_input'' \<mapsto> PStr []], login_form @ [incorrect_password], Stopped)"
  by (simp add: check_password_def idle_ui_def password_correct_flag_def Let_def)

lemma main_locked_example:
  "main demo_env idle_ui Map.empty =
     ([''password_input'' \<mapsto> PStr []],
      [PageConfig (CStr (lit ''xpost'')), Css (CInt 16)] @ login_form @ [incorrect_password],
      Stopped)"
proof -
  have cf: "load_config demo_env = Inr demo_config"
    by (rule load_config_demo)
  show ?thesis
    unfolding main_def cf check_password_idle
    by (simp add: demo_config_values Let_def)
qed

lemma load_config_no_credentials: "load_config no_credentials_env = Inr demo_config"
  by (simp add: load_config_def no_credentials_env_def demo_env_def password_store_def)

lemma secrets_no_credentials: "secrets no_credentials_env = Some (password_store (lit ''secret''))"
  by (simp add: no_credentials_env_def demo_env_def)

lemma missing_key_example:
  "\<exists>k\<in>set credential_keys. entries (password_store (lit ''secret'')) k = None"
  by (simp add: credential_keys_def password_store_def)

subsection \<open>The gate protects the posting client\<close>

text \<open>
  Claim C7. In every reachable session state and for every user input, a run of \<open>main\<close>
  builds or calls the posting client only if the session is authenticated when the gate
  has been passed, which takes a session that was authenticated already or the submission
  of the configured password in this run. When the session is not authenticated after the
  gate, the run performs no client action and halts there: \<open>st.stop()\<close> or an exception.
\<close>

theorem client_only_when_authenticated:
  assumes "reachable e ss" and "main e ui ss = (ss', acts, r)"
  shows "((\<exists>a\<in>set acts. is_client_action a) \<longrightarrow>
            authenticated (fst (check_password (secrets e) ui ss)) \<and>
            (authenticated ss \<or> (submit ui \<and> secret (secrets e) ''APP_PASSWORD'' = Inr (password_field ui)))) \<and>
         (\<not> authenticated (fst (check_password (secrets e) ui ss)) \<longrightarrow>
            (\<forall>a\<in>set acts. \<not> is_client_action a) \<and> (r = Stopped \<or> (\<exists>err. r = Raised err)))"
proof -
  obtain ss1 a1 g where cp: "check_password (secrets e) ui ss = (ss1, a1, g)"
    by (metis prod_cases3)
  note fl = check_password_flag [OF cp reachable_flag [OF assms(1)]]
  note nc = check_password_no_client [OF cp]
  have halt: "(\<forall>a\<in>set acts. \<not> is_client_action a) \<and> (r = Stopped \<or> (\<exists>err. r = Raised err))"
    if "\<not> authenticated ss1"
  proof -
    from that fl have nf: "\<not> password_correct_flag ss1" by (simp add: flag_authenticated)
    with cp check_password_returned have "\<And>ok. g \<noteq> Returned ok" by blast
    with main_cases [OF assms(2)] cp nc show ?thesis
      by (cases g) (auto simp: is_client_action_def list_all_iff)
  qed
  have "authenticated ss1 \<Longrightarrow>
        authenticated ss \<or> (submit ui \<and> secret (secrets e) ''APP_PASSWORD'' = Inr (password_field ui))"
    by (rule check_password_origin [OF cp])
  with halt cp show ?thesis by auto
qed

theorem client_only_when_authenticated_witness:
  "reachable demo_env Map.empty \<and>
   (\<exists>a\<in>set (fst (snd (main demo_env (login_ui (lit ''secret'')) Map.empty))). is_client_action a) \<and>
   authenticated (fst (check_password (secrets demo_env) (login_ui (lit ''secret'')) Map.empty)) \<and>
   submit (login_ui (lit ''secret'')) \<and>
   secret (secrets demo_env) ''APP_PASSWORD'' = Inr (password_field (login_ui (lit ''secret''))) \<and>
   reachable demo_env unlocked_session \<and>
   CreateTweet (lit ''hello world'') (Some (lit ''1234567890123456789''))
     \<in> set (fst (snd (main demo_env quote_post_ui unlocked_session))) \<and>
   authenticated (fst (check_password (secrets demo_env) quote_post_ui unlocked_session)) \<and>
   authenticated unlocked_session \<and>
   \<not> authenticated (fst (check_password (secrets demo_env) idle_ui Map.empty)) \<and>
   \<not> (\<exists>a\<in>set (fst (snd (main demo_env idle_ui Map.empty))). is_client_action a) \<and>
   snd (snd (main demo_env idle_ui Map.empty)) = Stopped"
proof -
  have r: "reachable demo_env Map.empty" by (rule reachable.start)
  have na: "\<not> authenticated Map.empty" by (simp add: authenticated_def)
  \<comment> \<open>the login run\<close>
  have c: "\<exists>a\<in>set (fst (snd (main demo_env (login_ui (lit ''secret'')) Map.empty))). is_client_action a"
    by (simp add: main_login_example is_client_action_def)
  obtain ss1 acts1 r1 where
    m: "main demo_env (login_ui (lit ''secret'')) Map.empty = (ss1, acts1, r1)"
    by (metis prod_cases3)
  from c m have "\<exists>a\<in>set acts1. is_client_action a" by simp
  with client_only_when_authenticated [OF r m] na
  have 1: "authenticated (fst (check_password (secrets demo_env) (login_ui (lit ''secret'')) Map.empty)) \<and>
           submit (login_ui (lit ''secret'')) \<and>
           secret (secrets demo_env) ''APP_PASSWORD'' = Inr (password_field (login_ui (lit ''secret'')))"
    by blast
  \<comment> \<open>the posting run in the session it leaves\<close>
  have p: "CreateTweet (lit ''hello world'') (Some (lit ''1234567890123456789''))
             \<in> set (fst (snd (main demo_env quote_post_ui unlocked_session)))"
    by (simp add: main_quote_post_example)
  have ns: "\<not> submit quote_post_ui" by (simp add: quote_post_ui_def)
  obtain ss3 acts3 r3 where
    q: "main demo_env quote_post_ui unlocked_session = (ss3, acts3, r3)"
    by (metis prod_cases3)
  from p q have "CreateTweet (lit ''hello world'') (Some (lit ''1234567890123456789'')) \<in> set acts3"
    by simp
  then have "\<exists>a\<in>set acts3. is_client_action a"
    by (rule bexI [rotated]) (simp add: is_client_action_def)
  with client_only_when_authenticated [OF reachable_unlocked q] ns
  have 2: "authenticated (fst (check_password (secrets demo_env) quote_post_ui unlocked_session)) \<and>
           authenticated unlocked_session"
    by blast
  \<comment> \<open>a run of the locked session\<close>
  have n: "\<not> authenticated (fst (check_password (secrets demo_env) idle_ui Map.empty))"
    by (simp add: check_password_idle authenticated_def)
  obtain ss2 acts2 r2 where l: "main demo_env idle_ui Map.empty = (ss2, acts2, r2)"
    by (metis prod_cases3)
  from client_only_when_authenticated [OF r l] n
  have "\<forall>a\<in>set acts2. \<not> is_client_action a" by blast
  with l have 3: "\<not> (\<exists>a\<in>set (fst (snd (main demo_env idle_ui Map.empty))). is_client_action a)"
    by simp
  have 4: "snd (snd (main demo_env idle_ui Map.empty)) = Stopped"
    by (simp add: main_locked_example)
  from r c 1 reachable_unlocked p 2 n 3 4 show ?thesis by blast
qed


subsection \<open>Missing credentials\<close>

lemma load_credentials_first_absent:
  assumes "\<exists>k\<in>set credential_keys. entries store k = None"
  shows "\<exists>k. find (\<lambda>k. entries store k = None) credential_keys = Some k \<and>
             load_credentials (Some store) = Inl (KeyError k)"
  using assms
  by (auto simp: credential_keys_def load_credentials_def secret_def split: option.splits)

lemma main_without_credentials:
  assumes "load_credentials (secrets e) = Inl err" and "main e ui ss = (ss', acts, r)"
  shows "(\<forall>a\<in>set acts. \<not> is_client_action a) \<and> (r = Stopped \<or> (\<exists>err. r = Raised err))"
  using main_cases [OF assms(2)]
proof (elim disjE exE conjE)
  fix a0 config ss1 a1 g
  assume a0: "list_all (\<lambda>a. \<not> is_client_action a) a0"
    and cp: "check_password (secrets e) ui ss = (ss1, a1, g)"
    and g: "case g of
             Returned ok \<Rightarrow> (\<exists>a2. protected_content e config ui ss1 = (ss', a2, r) \<and> acts = a0 @ a1 @ a2)
           | Stopped \<Rightarrow> ss' = ss1 \<and> acts = a0 @ a1 \<and> r = Stopped
           | Rerun \<Rightarrow> False
           | Raised err \<Rightarrow> ss' = ss1 \<and> acts = a0 @ a1 \<and> r = Raised err"
  from check_password_no_client [OF cp] a0 g
  show ?thesis
    by (cases g) (auto simp: list_all_iff protected_content_no_credentials [OF assms(1)])
qed (auto simp: is_client_action_def)

lemma main_config_loaded:
  assumes "load_config e = Inr config" and "config ''page_title'' = Some t"
      and "config ''textarea_font_size'' = Some fs" and "load_credentials (secrets e) = Inl err"
  shows "main e ui ss =
           (case check_password (secrets e) ui ss of
              (ss1, a1, Returned ok) \<Rightarrow> (ss1, [PageConfig t, Css fs] @ a1, Raised err)
            | (ss1, a1, Stopped) \<Rightarrow> (ss1, [PageConfig t, Css fs] @ a1, Stopped)
            | (ss1, a1, Rerun) \<Rightarrow> (ss1, [PageConfig t, Css fs] @ a1, Rerun)
            | (ss1, a1, Raised err') \<Rightarrow> (ss1, [PageConfig t, Css fs] @ a1, Raised err'))"
proof -
  obtain ss1 a1 g where cp: "check_password (secrets e) ui ss = (ss1, a1, g)"
    by (metis prod_cases3)
  show ?thesis
  proof (cases g)
    case (Returned ok)
    with cp check_password_returned have ok by blast
    with Returned cp assms show ?thesis
      by (simp add: main_def Let_def protected_content_no_credentials)
  qed (use cp assms in \<open>simp_all add: main_def Let_def\<close>)
qed

lemma check_password_locked_idle:
  assumes "\<not> password_correct_flag ss" and "\<not> submit ui"
  shows "check_password sec ui ss =
           (ss(''password_input'' \<mapsto> PStr (password_field ui)),
            login_form @ [incorrect_password], Stopped)"
  using assms by (simp add: check_password_def Let_def password_correct_flag_def)

lemma credential_absent_no_credentials: "credential_absent (secrets no_credentials_env)"
  by (simp add: credential_absent_def secrets_no_credentials missing_key_example)

text \<open>
  Claim C8, as stated: the absence of a credential is a fatal startup error that keeps the
  application from serving any request. It fails on the code: with a secrets file that
  holds the password and no credential, a locked session is served the login page, and
  the run ends with \<open>st.stop()\<close>, not with an error.
\<close>

theorem missing_credentials_login_served_counterexample:
  "credential_absent (secrets no_credentials_env) \<and>
   main no_credentials_env idle_ui Map.empty =
     ([''password_input'' \<mapsto> PStr []],
      [PageConfig (CStr (lit ''xpost'')), Css (CInt 16)] @ login_form @ [incorrect_password],
      Stopped)"
proof
  show "credential_absent (secrets no_credentials_env)"
    by (rule credential_absent_no_credentials)
  show "main no_credentials_env idle_ui Map.empty =
     ([''password_input'' \<mapsto> PStr []],
      [PageConfig (CStr (lit ''xpost'')), Css (CInt 16)] @ login_form @ [incorrect_password],
      Stopped)"
    unfolding main_def load_config_no_credentials check_password_idle
    by (simp add: demo_config_values Let_def)
qed

text \<open>
  Claim C8, amended. The absence of a credential is a fatal startup error only when there
  is no secrets file: then every run ends in \<open>load_config\<close>, before anything is shown.
  With a secrets file that lacks a credential nothing fails at startup:
  \<open>load_credentials\<close>, which raises \<open>KeyError\<close> for the first absent key, is called only
  after the gate has been passed. With a configuration that loads, every run sets up the
  page and then runs the gate, so a locked session is served the login page and the run
  stops at the gate; a run in which the gate is passed ends with that \<open>KeyError\<close> right
  after the gate. No run builds or calls the posting client.
\<close>

theorem missing_credentials_fatal_after_gate:
  assumes "credential_absent (secrets e)"
  shows "case secrets e of
           None \<Rightarrow>
             main e ui ss =
               (ss, [], Raised (case config_toml e of
                                  Inl err \<Rightarrow> err | Inr config \<Rightarrow> StreamlitSecretNotFoundError))
         | Some store \<Rightarrow>
             (\<exists>k. find (\<lambda>k. entries store k = None) credential_keys = Some k \<and>
                  load_credentials (secrets e) = Inl (KeyError k) \<and>
                  (\<forall>ss' acts r. main e ui ss = (ss', acts, r) \<longrightarrow>
                     (\<forall>a\<in>set acts. \<not> is_client_action a) \<and>
                     (r = Stopped \<or> (\<exists>err. r = Raised err))) \<and>
                  (\<forall>config t fs.
                     load_config e = Inr config \<and> config ''page_title'' = Some t \<and>
                     config ''textarea_font_size'' = Some fs \<longrightarrow>
                     main e ui ss =
                       (case check_password (secrets e) ui ss of
                          (ss1, a1, Returned ok) \<Rightarrow>
                            (ss1, [PageConfig t, Css fs] @ a1, Raised (KeyError k))
                        | (ss1, a1, Stopped) \<Rightarrow> (ss1, [PageConfig t, Css fs] @ a1, Stopped)
                        | (ss1, a1, Rerun) \<Rightarrow> (ss1, [PageConfig t, Css fs] @ a1, Rerun)
                        | (ss1, a1, Raised err) \<Rightarrow>
                            (ss1, [PageConfig t, Css fs] @ a1, Raised err)) \<and>
                     (\<not> password_correct_flag ss \<and> \<not> submit ui \<longrightarrow>
                        main e ui ss =
                          (ss(''password_input'' \<mapsto> PStr (password_field ui)),
                           [PageConfig t, Css fs] @ login_form @ [incorrect_password],
                           Stopped))))"
proof (cases "secrets e")
  case None
  then show ?thesis
    by (simp add: main_def load_config_def split: sum.splits)
next
  case (Some store)
  with assms have "\<exists>k\<in>set credential_keys. entries store k = None"
    by (simp add: credential_absent_def)
  from load_credentials_first_absent [OF this] Some obtain k where
    k: "find (\<lambda>k. entries store k = None) credential_keys = Some k"
       "load_credentials (secrets e) = Inl (KeyError k)" by auto
  have 1: "\<forall>ss' acts r. main e ui ss = (ss', acts, r) \<longrightarrow>
             (\<forall>a\<in>set acts. \<not> is_client_action a) \<and> (r = Stopped \<or> (\<exists>err. r = Raised err))"
    using main_without_credentials [OF k(2)] by blast
  have 2: "main e ui ss =
             (case check_password (secrets e) ui ss of
                (ss1, a1, Returned ok) \<Rightarrow> (ss1, [PageConfig t, Css fs] @ a1, Raised (KeyError k))
              | (ss1, a1, Stopped) \<Rightarrow> (ss1, [PageConfig t, Css fs] @ a1, Stopped)
              | (ss1, a1, Rerun) \<Rightarrow> (ss1, [PageConfig t, Css fs] @ a1, Rerun)
              | (ss1, a1, Raised err) \<Rightarrow> (ss1, [PageConfig t, Css fs] @ a1, Raised err))"
    if "load_config e = Inr config" "config ''page_title'' = Some t"
       "config ''textarea_font_size'' = Some fs" for config t fs
    by (rule main_config_loaded [OF that k(2)])
  have 3: "main e ui ss =
             (ss(''password_input'' \<mapsto> PStr (password_field ui)),
              [PageConfig t, Css fs] @ login_form @ [incorrect_password], Stopped)"
    if "load_config e = Inr config" "config ''page_title'' = Some t"
       "config ''textarea_font_size'' = Some fs"
       "\<not> password_correct_flag ss" "\<not> submit ui" for config t fs
    using 2 [OF that(1-3)] check_password_locked_idle [OF that(4,5)] by simp
  have "\<exists>k. find (\<lambda>k. entries store k = None) credential_keys = Some k \<and>
            load_credentials (secrets e) = Inl (KeyError k) \<and>
            (\<forall>ss' acts r. main e ui ss = (ss', acts, r) \<longrightarrow>
               (\<forall>a\<in>set acts. \<not> is_client_action a) \<and>
               (r = Stopped \<or> (\<exists>err. r = Raised err))) \<and>
            (\<forall>config t fs.
               load_config e = Inr config \<and> config ''page_title'' = Some t \<and>
               config ''textarea_font_size'' = Some fs \<longrightarrow>
               main e ui ss =
                 (case check_password (secrets e) ui ss of
                    (ss1, a1, Returned ok) \<Rightarrow>
                      (ss1, [PageConfig t, Css fs] @ a1, Raised (KeyError k))
                  | (ss1, a1, Stopped) \<Rightarrow> (ss1, [PageConfig t, Css fs] @ a1, Stopped)
                  | (ss1, a1, Rerun) \<Rightarrow> (ss1, [PageConfig t, Css fs] @ a1, Rerun)
                  | (ss1, a1, Raised err) \<Rightarrow>
                      (ss1, [PageConfig t, Css fs] @ a1, Raised err)) \<and>
               (\<not> password_correct_flag ss \<and> \<not> submit ui \<longrightarrow>
                  main e ui ss =
                    (ss(''password_input'' \<mapsto> PStr (password_field ui)),
                     [PageConfig t, Css fs] @ login_form @ [incorrect_password],
                     Stopped)))"
    using k 1 2 3 by blast
  then show ?thesis by (subst Some) (simp only: option.case)
qed

theorem missing_credentials_fatal_after_gate_witness:
  "credential_absent (secrets no_secrets_env) \<and>
   main no_secrets_env idle_ui Map.empty = (Map.empty, [], Raised StreamlitSecretNotFoundError) \<and>
   credential_absent (secrets no_credentials_env) \<and>
   load_credentials (secrets no_credentials_env) = Inl (KeyError ''CONSUMER_KEY'') \<and>
   main no_credentials_env idle_ui Map.empty =
     ([''password_input'' \<mapsto> PStr []],
      [PageConfig (CStr (lit ''xpost'')), Css (CInt 16)] @ login_form @ [incorrect_password],
      Stopped) \<and>
   main no_credentials_env idle_ui unlocked_session =
     (unlocked_session, [PageConfig (CStr (lit ''xpost'')), Css (CInt 16)],
      Raised (KeyError ''CONSUMER_KEY''))"
proof -
  \<comment> \<open>no secrets file\<close>
  have n: "secrets no_secrets_env = None" "config_toml no_secrets_env = Inr demo_config"
    by (simp_all add: no_secrets_env_def demo_env_def)
  then have a: "credential_absent (secrets no_secrets_env)"
    by (simp add: credential_absent_def)
  from missing_credentials_fatal_after_gate [OF a, of idle_ui Map.empty] n
  have 1: "main no_secrets_env idle_ui Map.empty = (Map.empty, [], Raised StreamlitSecretNotFoundError)"
    by simp
  \<comment> \<open>a secrets file with the password only\<close>
  note b = credential_absent_no_credentials
  have f: "find (\<lambda>k. entries (password_store (lit ''secret'')) k = None) credential_keys =
             Some ''CONSUMER_KEY''"
    by (simp add: credential_keys_def password_store_def)
  have l: "\<not> password_correct_flag Map.empty" "\<not> submit idle_ui" "password_field idle_ui = []"
    by (simp_all add: password_correct_flag_def idle_ui_def)
  from missing_credentials_fatal_after_gate [OF b, of idle_ui Map.empty]
  have 2: "load_credentials (secrets no_credentials_env) = Inl (KeyError ''CONSUMER_KEY'')"
    and 3: "main no_credentials_env idle_ui Map.empty =
     ([''password_input'' \<mapsto> PStr []],
      [PageConfig (CStr (lit ''xpost'')), Css (CInt 16)] @ login_form @ [incorrect_password],
      Stopped)"
    using load_config_no_credentials demo_config_values(1,2) l
    by (auto simp: secrets_no_credentials f)
  from missing_credentials_fatal_after_gate [OF b, of idle_ui unlocked_session]
  have 4: "main no_credentials_env idle_ui unlocked_session =
     (unlocked_session, [PageConfig (CStr (lit ''xpost'')), Css (CInt 16)],
      Raised (KeyError ''CONSUMER_KEY''))"
    using load_config_no_credentials demo_config_values(1,2)
    by (auto simp: secrets_no_credentials f check_password_unlocked)
  from a 1 b 2 3 4 show ?thesis by blast
qed

end
